theory Spec2Isabelle
  imports Complex_Main
begin


section \<open>Data model of the dam (checkers) server\<close>

text \<open>
  The engine of \<^verbatim>\<open>src/server.js\<close> works on plain JavaScript values. The four piece
  symbols \<^verbatim>\<open>"w"\<close>, \<^verbatim>\<open>"b"\<close>, \<^verbatim>\<open>"W"\<close>, \<^verbatim>\<open>"B"\<close> are a colour and a rank encoded in the
  letter case: \<open>Man White\<close>, \<open>Man Black\<close>, \<open>King White\<close>, \<open>King Black\<close>. The two colour
  strings \<^verbatim>\<open>"w"\<close> and \<^verbatim>\<open>"b"\<close> are what \<^verbatim>\<open>joinRoom\<close> assigns to players and what
  \<^verbatim>\<open>toLowerCase\<close> returns on a piece; \<^verbatim>\<open>toUpperCase\<close> gives the king of the colour.
\<close>

datatype colour = White | Black

datatype piece = Man colour | King colour

fun toLowerCase :: "piece \<Rightarrow> colour" where
  "toLowerCase (Man k) = k"
| "toLowerCase (King k) = k"

fun toUpperCase :: "piece \<Rightarrow> piece" where
  "toUpperCase (Man k) = King k"
| "toUpperCase (King k) = King k"

text \<open>
  What reading a board square can give: \<^verbatim>\<open>undefined\<close> (no such property),
  \<^verbatim>\<open>null\<close> (an empty square) or a piece symbol.
\<close>

datatype cell = Undefined | Null | Piece piece

text \<open>The only exception the engine can raise: a property access on \<^verbatim>\<open>undefined\<close> or \<^verbatim>\<open>null\<close>.\<close>

datatype error = TypeError

datatype status = Waiting | Playing | Finished

text \<open>
  Coordinates are JavaScript numbers as they arrive from the client; they are modelled
  as rationals, so that a fractional coordinate is a possible input (every finite
  double is a rational, and the engine only adds, subtracts and halves small
  integers once the origin and the destination are squares of the board). The board is
  an array of eight row arrays. A row is an object whose properties are looked up by
  number: a missing property reads \<^verbatim>\<open>undefined\<close>, and an assignment creates the
  property whatever the key is. The set of rows never changes (no code assigns
  \<^verbatim>\<open>board[r]\<close>), so \<^verbatim>\<open>board[r]\<close> is defined exactly for the index keys 0..7.
\<close>

type_synonym board = "rat \<Rightarrow> rat \<Rightarrow> cell"

record pos =
  row :: rat
  col :: rat

record game =
  board :: board
  currentPlayer :: colour
  status :: status
  winner :: "colour option"
  mustContinueFrom :: "pos option"

definition isInteger :: "rat \<Rightarrow> bool" where
  "isInteger k = (of_int \<lfloor>k\<rfloor> = k)"

definition isIndex :: "rat \<Rightarrow> bool" where
  "isIndex k = (isInteger k \<and> 0 \<le> k \<and> k < 8)"

definition bindE :: "error + 'a \<Rightarrow> ('a \<Rightarrow> error + 'b) \<Rightarrow> error + 'b" where
  "bindE m f = (case m of Inl e \<Rightarrow> Inl e | Inr x \<Rightarrow> f x)"

text \<open>\<^verbatim>\<open>board[r][c]\<close>: raises when the row \<^verbatim>\<open>board[r]\<close> is \<^verbatim>\<open>undefined\<close>.\<close>

definition rd :: "board \<Rightarrow> rat \<Rightarrow> rat \<Rightarrow> error + cell" where
  "rd b r c = (if isIndex r then Inr (b r c) else Inl TypeError)"

text \<open>\<^verbatim>\<open>board[r]?.[c]\<close>: \<^verbatim>\<open>undefined\<close> when the row is.\<close>

definition rdOpt :: "board \<Rightarrow> rat \<Rightarrow> rat \<Rightarrow> cell" where
  "rdOpt b r c = (if isIndex r then b r c else Undefined)"

text \<open>\<^verbatim>\<open>board[r][c] = v\<close>: raises when the row is \<^verbatim>\<open>undefined\<close>, else sets the property.\<close>

definition setCell :: "board \<Rightarrow> rat \<Rightarrow> rat \<Rightarrow> cell \<Rightarrow> board" where
  "setCell b r c v = b(r := (b r)(c := v))"

definition wr :: "board \<Rightarrow> rat \<Rightarrow> rat \<Rightarrow> cell \<Rightarrow> error + board" where
  "wr b r c v = (if isIndex r then Inr (setCell b r c v) else Inl TypeError)"

text \<open>\<^verbatim>\<open>x.toLowerCase()\<close> on what a square read gave.\<close>

fun lower :: "cell \<Rightarrow> error + colour" where
  "lower (Piece p) = Inr (toLowerCase p)"
| "lower Null = Inl TypeError"
| "lower Undefined = Inl TypeError"

definition isKing :: "piece \<Rightarrow> bool" where
  "isKing p = (p = toUpperCase p)"

section \<open>Creating a game\<close>

definition emptyBoard :: board where
  "emptyBoard = (\<lambda>r c. if isIndex r \<and> isIndex c then Null else Undefined)"

text \<open>One of the two placement loops of \<^verbatim>\<open>createInitialBoard\<close>, over the given rows.\<close>

definition placeRows :: "piece \<Rightarrow> int list \<Rightarrow> board \<Rightarrow> board" where
  "placeRows p rs b0 =
     foldl (\<lambda>b r. foldl (\<lambda>b' c.
        if (r + c) mod 2 = 1 then setCell b' (of_int r) (of_int c) (Piece p) else b')
        b [0..7]) b0 rs"

definition createInitialBoard :: board where
  "createInitialBoard =
     placeRows (Man White) [5..7] (placeRows (Man Black) [0..2] emptyBoard)"

definition createNewGame :: game where
  "createNewGame = \<lparr> board = createInitialBoard, currentPlayer = White,
     status = Waiting, winner = None, mustContinueFrom = None \<rparr>"

section \<open>Capture scanner\<close>

text \<open>
  The entries of the \<^verbatim>\<open>directions\<close> arrays: each of \<^verbatim>\<open>dr\<close>, \<^verbatim>\<open>dc\<close> is the literal
  \<^verbatim>\<open>-1\<close> or \<^verbatim>\<open>1\<close>.
\<close>

datatype unit_step = Minus1 | Plus1

fun stepVal :: "unit_step \<Rightarrow> rat" where
  "stepVal Minus1 = - 1"
| "stepVal Plus1 = 1"

definition directions :: "(unit_step \<times> unit_step) list" where
  "directions = [(Minus1, Minus1), (Minus1, Plus1), (Plus1, Minus1), (Plus1, Plus1)]"

text \<open>The \<^verbatim>\<open>for\<close> loop of \<^verbatim>\<open>hasRegularCaptureFrom\<close> over the remaining directions.\<close>

fun regularDirs :: "board \<Rightarrow> cell \<Rightarrow> rat \<Rightarrow> rat \<Rightarrow> (unit_step \<times> unit_step) list \<Rightarrow> error + bool" where
  "regularDirs b piece r c [] = Inr False"
| "regularDirs b piece r c ((sr, sc) # ds) =
     (let midR = r + stepVal sr; midC = c + stepVal sc;
          landR = r + 2 * stepVal sr; landC = c + 2 * stepVal sc in
      if landR < 0 \<or> landR \<ge> 8 \<or> landC < 0 \<or> landC \<ge> 8 \<or>
         midR < 0 \<or> midR \<ge> 8 \<or> midC < 0 \<or> midC \<ge> 8
      then regularDirs b piece r c ds
      else bindE (rd b midR midC) (\<lambda>midPiece.
           bindE (rd b landR landC) (\<lambda>landPiece.
             if midPiece = Undefined \<or> midPiece = Null \<or> landPiece \<noteq> Null
             then regularDirs b piece r c ds
             else bindE (lower midPiece) (\<lambda>m.
                  bindE (lower piece) (\<lambda>p.
                    if m = p then regularDirs b piece r c ds else Inr True)))))"

definition hasRegularCaptureFrom :: "game \<Rightarrow> rat \<Rightarrow> rat \<Rightarrow> error + bool" where
  "hasRegularCaptureFrom g r c =
     bindE (rd (board g) r c) (\<lambda>piece. regularDirs (board g) piece r c directions)"

text \<open>
  The \<^verbatim>\<open>while (true)\<close> scan of \<^verbatim>\<open>hasKingCaptureFrom\<close> along one direction, from the
  given distance on. \<open>Inr True\<close> is the \<^verbatim>\<open>return true\<close>, \<open>Inr False\<close> a \<^verbatim>\<open>break\<close>.
\<close>

function kingScan :: "board \<Rightarrow> cell \<Rightarrow> rat \<Rightarrow> rat \<Rightarrow> unit_step \<Rightarrow> unit_step \<Rightarrow> int \<Rightarrow> bool \<Rightarrow> error + bool" where
  "kingScan b piece r c sr sc distance foundEnemy =
     (let checkR = r + stepVal sr * of_int distance;
          checkC = c + stepVal sc * of_int distance in
      if checkR < 0 \<or> checkR \<ge> 8 \<or> checkC < 0 \<or> checkC \<ge> 8 then Inr False
      else bindE (rd b checkR checkC) (\<lambda>checkPiece.
        if checkPiece = Null
        then (if foundEnemy then Inr True
              else kingScan b piece r c sr sc (distance + 1) foundEnemy)
        else bindE (lower checkPiece) (\<lambda>cl.
             bindE (lower piece) (\<lambda>pl.
               if cl = pl then Inr False
               else if foundEnemy then Inr False
               else kingScan b piece r c sr sc (distance + 1) True))))"
  by pat_completeness auto
termination
  apply (relation "measure (\<lambda>(b, piece, r, c, sr, sc, distance, foundEnemy).
          nat \<lceil>(if sr = Plus1 then 8 - (r + of_int distance) else r - of_int distance + 1)\<rceil>)")
    apply simp
  subgoal for b piece r c sr sc distance foundEnemy
    by (cases sr) (simp_all, linarith+)
  subgoal for b piece r c sr sc distance foundEnemy
    by (cases sr) (simp_all, linarith+)
  done


fun kingDirs :: "board \<Rightarrow> cell \<Rightarrow> rat \<Rightarrow> rat \<Rightarrow> (unit_step \<times> unit_step) list \<Rightarrow> error + bool" where
  "kingDirs b piece r c [] = Inr False"
| "kingDirs b piece r c ((sr, sc) # ds) =
     bindE (kingScan b piece r c sr sc 1 False) (\<lambda>found.
       if found then Inr True else kingDirs b piece r c ds)"

definition hasKingCaptureFrom :: "game \<Rightarrow> rat \<Rightarrow> rat \<Rightarrow> error + bool" where
  "hasKingCaptureFrom g r c =
     bindE (rd (board g) r c) (\<lambda>piece. kingDirs (board g) piece r c directions)"

definition hasCaptureFrom :: "game \<Rightarrow> rat \<Rightarrow> rat \<Rightarrow> error + bool" where
  "hasCaptureFrom g r c =
     (case rdOpt (board g) r c of
        Piece piece \<Rightarrow>
          if isKing piece then hasKingCaptureFrom g r c else hasRegularCaptureFrom g r c
      | _ \<Rightarrow> Inr False)"

text \<open>The index keys 0..7 in the order the two nested \<^verbatim>\<open>for\<close> loops visit them.\<close>

definition indices :: "rat list" where
  "indices = map of_int [0..7]"

definition getAllPlayerPieces :: "board \<Rightarrow> colour \<Rightarrow> (rat \<times> rat \<times> piece) list" where
  "getAllPlayerPieces b color =
     concat (map (\<lambda>r. concat (map (\<lambda>c.
        case b r c of
          Piece piece \<Rightarrow> if toLowerCase piece = color then [(r, c, piece)] else []
        | _ \<Rightarrow> []) indices)) indices)"

fun anyCaptureAmong :: "game \<Rightarrow> (rat \<times> rat \<times> piece) list \<Rightarrow> error + bool" where
  "anyCaptureAmong g [] = Inr False"
| "anyCaptureAmong g ((r, c, piece) # ps) =
     bindE (hasCaptureFrom g r c) (\<lambda>h. if h then Inr True else anyCaptureAmong g ps)"

definition playerHasAnyCapture :: "game \<Rightarrow> colour \<Rightarrow> error + bool" where
  "playerHasAnyCapture g playerColor =
     (case mustContinueFrom g of
        Some m \<Rightarrow> hasCaptureFrom g (row m) (col m)
      | None \<Rightarrow> anyCaptureAmong g (getAllPlayerPieces (board g) playerColor))"

section \<open>Move legality\<close>

text \<open>\<^verbatim>\<open>d > 0 ? 1 : -1\<close>\<close>

definition dirOf :: "rat \<Rightarrow> rat" where
  "dirOf d = (if d > 0 then 1 else - 1)"

text \<open>
  The king branch of the capture classification in \<^verbatim>\<open>isValidMove\<close>: is there an enemy
  piece on a square \<^verbatim>\<open>(fr + dirR * dist, fc + dirC * dist)\<close> with \<^verbatim>\<open>dist < absDr\<close>?
  The loop counter \<^verbatim>\<open>dist\<close> is \<open>dst\<close> here and in the other loops.
\<close>

function kingPathEnemy :: "board \<Rightarrow> piece \<Rightarrow> rat \<Rightarrow> rat \<Rightarrow> rat \<Rightarrow> rat \<Rightarrow> int \<Rightarrow> rat \<Rightarrow> error + bool" where
  "kingPathEnemy b piece fr fc dirR dirC dst absDr =
     (if of_int dst < absDr
      then bindE (rd b (fr + dirR * of_int dst) (fc + dirC * of_int dst)) (\<lambda>checkPiece.
        case checkPiece of
          Piece q \<Rightarrow> if toLowerCase q \<noteq> toLowerCase piece then Inr True
                     else kingPathEnemy b piece fr fc dirR dirC (dst + 1) absDr
        | _ \<Rightarrow> kingPathEnemy b piece fr fc dirR dirC (dst + 1) absDr)
      else Inr False)"
  by pat_completeness auto
termination
  by (relation "measure (\<lambda>(b, piece, fr, fc, dirR, dirC, dst, absDr). nat (\<lceil>absDr\<rceil> - dst))")
     (auto, linarith+)

text \<open>The classification \<^verbatim>\<open>isCapture\<close> computed by \<^verbatim>\<open>isValidMove\<close>.\<close>

definition isCaptureMove :: "board \<Rightarrow> piece \<Rightarrow> pos \<Rightarrow> pos \<Rightarrow> error + bool" where
  "isCaptureMove b piece from to =
     (let dr = row to - row from; dc = col to - col from in
      if isKing piece
      then kingPathEnemy b piece (row from) (col from) (dirOf dr) (dirOf dc) 1 \<bar>dr\<bar>
      else Inr (\<bar>dr\<bar> = 2 \<and> \<bar>dc\<bar> = 2))"

text \<open>
  The \<^verbatim>\<open>while (distance < absDr)\<close> scan of \<^verbatim>\<open>isValidKingMove\<close>. \<open>Inr None\<close> is a
  \<^verbatim>\<open>return false\<close> from inside the loop, \<open>Inr (Some e)\<close> the end of the loop with
  \<^verbatim>\<open>foundEnemy = e\<close> (\<^verbatim>\<open>enemyRow\<close> and \<^verbatim>\<open>enemyCol\<close> are assigned and never read).
\<close>

function kingPathScan :: "board \<Rightarrow> piece \<Rightarrow> rat \<Rightarrow> rat \<Rightarrow> rat \<Rightarrow> rat \<Rightarrow> int \<Rightarrow> rat \<Rightarrow> bool \<Rightarrow> error + bool option" where
  "kingPathScan b piece fr fc dirR dirC distance absDr foundEnemy =
     (if of_int distance < absDr
      then bindE (rd b (fr + dirR * of_int distance) (fc + dirC * of_int distance)) (\<lambda>checkPiece.
        if checkPiece = Null
        then kingPathScan b piece fr fc dirR dirC (distance + 1) absDr foundEnemy
        else bindE (lower checkPiece) (\<lambda>cl.
          if cl = toLowerCase piece then Inr None
          else if foundEnemy then Inr None
          else kingPathScan b piece fr fc dirR dirC (distance + 1) absDr True))
      else Inr (Some foundEnemy))"
  by pat_completeness auto
termination
  by (relation "measure (\<lambda>(b, piece, fr, fc, dirR, dirC, distance, absDr, foundEnemy).
        nat (\<lceil>absDr\<rceil> - distance))")
     (auto, linarith+)

definition isValidKingMove :: "game \<Rightarrow> pos \<Rightarrow> pos \<Rightarrow> piece \<Rightarrow> pos option \<Rightarrow> error + bool" where
  "isValidKingMove g from to piece mcf =
     (let b = board g; fr = row from; fc = col from; tr = row to; tc = col to;
          dr = tr - fr; dc = tc - fc; absDr = \<bar>dr\<bar>; absDc = \<bar>dc\<bar> in
      if absDr \<noteq> absDc then Inr False
      else if absDr < 1 then Inr False
      else bindE (kingPathScan b piece fr fc (dirOf dr) (dirOf dc) 1 absDr False) (\<lambda>res.
        case res of
          None \<Rightarrow> Inr False
        | Some foundEnemy \<Rightarrow>
            bindE (rd b tr tc) (\<lambda>dest.
              if dest \<noteq> Null then Inr False
              else if foundEnemy then Inr True
              else if mcf \<noteq> None then Inr False
              else Inr True)))"

definition isValidMove :: "game \<Rightarrow> pos \<Rightarrow> pos \<Rightarrow> colour \<Rightarrow> error + bool" where
  "isValidMove g from to playerColor =
     (let b = board g; fr = row from; fc = col from; tr = row to; tc = col to in
      if status g \<noteq> Playing then Inr False
      else if currentPlayer g \<noteq> playerColor then Inr False
      else if fr = tr \<and> fc = tc then Inr False
      else if tr < 0 \<or> tr \<ge> 8 \<or> tc < 0 \<or> tc \<ge> 8 then Inr False
      else case rdOpt b fr fc of
        Piece piece \<Rightarrow>
          if toLowerCase piece \<noteq> playerColor then Inr False
          else if (case mustContinueFrom g of
                     Some m \<Rightarrow> row m \<noteq> fr \<or> col m \<noteq> fc
                   | None \<Rightarrow> False) then Inr False
          else bindE (rd b tr tc) (\<lambda>dest.
            if dest \<noteq> Null then Inr False
            else
              let dr = tr - fr; dc = tc - fc; absDr = \<bar>dr\<bar>; absDc = \<bar>dc\<bar>;
                  isWhite = (toLowerCase piece = White) in
              bindE (isCaptureMove b piece from to) (\<lambda>isCapture.
              bindE (if \<not> isCapture then playerHasAnyCapture g playerColor else Inr False)
                (\<lambda>captureAvailable.
                if \<not> isCapture \<and> captureAvailable then Inr False
                else if isKing piece
                then isValidKingMove g from to piece (mustContinueFrom g)
                else
                  let isSimpleMove = (absDr = 1 \<and> absDc = 1) in
                  if \<not> isCapture \<and> \<not> isSimpleMove then Inr False
                  else if isCapture then
                    (case rdOpt b (fr + dr / 2) (fc + dc / 2) of
                       Piece midPiece \<Rightarrow>
                         if toLowerCase midPiece = toLowerCase piece then Inr False
                         else Inr True
                     | _ \<Rightarrow> Inr False)
                  else if mustContinueFrom g \<noteq> None then Inr False
                  else if isWhite \<and> dr \<ge> 0 then Inr False
                  else if \<not> isWhite \<and> dr \<le> 0 then Inr False
                  else Inr True)))
      | _ \<Rightarrow> Inr False)"

section \<open>Move execution\<close>

text \<open>
  The king loop of \<^verbatim>\<open>applyMove\<close>: clears the first enemy square on the path and
  reports \<^verbatim>\<open>didCapture\<close>.
\<close>

function kingRemove :: "board \<Rightarrow> piece \<Rightarrow> rat \<Rightarrow> rat \<Rightarrow> rat \<Rightarrow> rat \<Rightarrow> int \<Rightarrow> rat \<Rightarrow> error + board \<times> bool" where
  "kingRemove b piece fr fc dirR dirC dst absDr =
     (if of_int dst < absDr
      then bindE (rd b (fr + dirR * of_int dst) (fc + dirC * of_int dst)) (\<lambda>checkPiece.
        case checkPiece of
          Piece q \<Rightarrow>
            if toLowerCase q \<noteq> toLowerCase piece
            then bindE (wr b (fr + dirR * of_int dst) (fc + dirC * of_int dst) Null)
                   (\<lambda>b'. Inr (b', True))
            else kingRemove b piece fr fc dirR dirC (dst + 1) absDr
        | _ \<Rightarrow> kingRemove b piece fr fc dirR dirC (dst + 1) absDr)
      else Inr (b, False))"
  by pat_completeness auto
termination
  by (relation "measure (\<lambda>(b, piece, fr, fc, dirR, dirC, dst, absDr). nat (\<lceil>absDr\<rceil> - dst))")
     (auto, linarith+)

text \<open>
  \<^verbatim>\<open>applyMove\<close> mutates the game in place; the model returns the game after the call.
  Where the JavaScript raises, the result is the error (the squares already written
  before the exception are not tracked). The function is modelled in three parts: the
  removal of the jumped piece (the \<^verbatim>\<open>if (isKing) ... else ...\<close> block, giving the board
  and \<^verbatim>\<open>didCapture\<close>), the placement with promotion and the continuation decision, and
  \<^verbatim>\<open>applyMove\<close> itself, which reads and clears the origin first.
\<close>

definition removeCaptured :: "board \<Rightarrow> piece \<Rightarrow> pos \<Rightarrow> pos \<Rightarrow> error + board \<times> bool" where
  "removeCaptured b1 piece from to =
     (let fr = row from; fc = col from; tr = row to; tc = col to;
          dr = tr - fr; dc = tc - fc; absDr = \<bar>dr\<bar> in
      if isKing piece
      then kingRemove b1 piece fr fc (dirOf dr) (dirOf dc) 1 absDr
      else
        let absDc = \<bar>tc - fc\<bar> in
        if absDr = 2 \<and> absDc = 2
        then bindE (wr b1 (fr + dr / 2) (fc + dc / 2) Null) (\<lambda>b'. Inr (b', True))
        else Inr (b1, False))"

definition placeAndContinue :: "game \<Rightarrow> board \<Rightarrow> piece \<Rightarrow> pos \<Rightarrow> bool \<Rightarrow> error + game" where
  "placeAndContinue g b2 piece to didCapture =
     (let tr = row to; tc = col to in
      bindE (wr b2 tr tc (Piece piece)) (\<lambda>b3.
      bindE (if piece = Man White \<and> tr = 0 then wr b3 tr tc (Piece (King White))
             else Inr b3) (\<lambda>b4.
      bindE (if piece = Man Black \<and> tr = 7 then wr b4 tr tc (Piece (King Black))
             else Inr b4) (\<lambda>b5.
      bindE (if didCapture then hasCaptureFrom (g\<lparr>board := b5\<rparr>) tr tc else Inr False)
        (\<lambda>further.
        if didCapture \<and> further
        then Inr (g\<lparr>board := b5, mustContinueFrom := Some \<lparr>row = tr, col = tc\<rparr>\<rparr>)
        else Inr (g\<lparr>board := b5, mustContinueFrom := None,
                   currentPlayer := (if currentPlayer g = White then Black else White)\<rparr>))))))"

definition applyMove :: "game \<Rightarrow> pos \<Rightarrow> pos \<Rightarrow> error + game" where
  "applyMove g from to =
     bindE (rd (board g) (row from) (col from)) (\<lambda>pieceCell.
     bindE (wr (board g) (row from) (col from) Null) (\<lambda>b1.
       case pieceCell of
         Piece piece \<Rightarrow>
           bindE (removeCaptured b1 piece from to) (\<lambda>(b2, didCapture).
             placeAndContinue g b2 piece to didCapture)
       | _ \<Rightarrow> Inl TypeError))"

section \<open>The \<^verbatim>\<open>makeMove\<close> handler\<close>

text \<open>The path loop of the handler; it reads with \<^verbatim>\<open>?.\<close> and cannot raise.\<close>

function hasEnemyInPath :: "board \<Rightarrow> piece \<Rightarrow> rat \<Rightarrow> rat \<Rightarrow> rat \<Rightarrow> rat \<Rightarrow> int \<Rightarrow> rat \<Rightarrow> bool" where
  "hasEnemyInPath b piece fr fc dirR dirC dst absDr =
     (if of_int dst < absDr
      then (case rdOpt b (fr + dirR * of_int dst) (fc + dirC * of_int dst) of
              Piece q \<Rightarrow>
                if toLowerCase q \<noteq> toLowerCase piece then True
                else hasEnemyInPath b piece fr fc dirR dirC (dst + 1) absDr
            | _ \<Rightarrow> hasEnemyInPath b piece fr fc dirR dirC (dst + 1) absDr)
      else False)"
  by pat_completeness auto
termination
  by (relation "measure (\<lambda>(b, piece, fr, fc, dirR, dirC, dst, absDr). nat (\<lceil>absDr\<rceil> - dst))")
     (auto, linarith+)

definition isSimpleMoveAttempt :: "board \<Rightarrow> piece \<Rightarrow> pos \<Rightarrow> pos \<Rightarrow> bool" where
  "isSimpleMoveAttempt b piece from to =
     (let fr = row from; fc = col from; tr = row to; tc = col to;
          dr = tr - fr; dc = tc - fc; absDr = \<bar>dr\<bar>; absDc = \<bar>dc\<bar> in
      if isKing piece
      then (if absDr = absDc \<and> absDr > 0
            then \<not> hasEnemyInPath b piece fr fc (dirOf dr) (dirOf dc) 1 absDr
                 \<and> rdOpt b tr tc = Null
            else False)
      else absDr = 1 \<and> absDc = 1 \<and> rdOpt b tr tc = Null)"

text \<open>What the handler emits: \<^verbatim>\<open>mustCapture\<close>, \<^verbatim>\<open>invalidMove\<close>, or \<^verbatim>\<open>gameUpdate\<close> with the game.\<close>

datatype outcome = MustCapture | InvalidMove | GameUpdate game

text \<open>
  The handler once the room and the player's colour have been found (the two early
  \<^verbatim>\<open>return\<close>s before are the session layer's).
\<close>

definition makeMove :: "game \<Rightarrow> pos \<Rightarrow> pos \<Rightarrow> colour \<Rightarrow> error + outcome" where
  "makeMove g from to playerColor =
     bindE (isValidMove g from to playerColor) (\<lambda>valid.
       if \<not> valid then
         (case rdOpt (board g) (row from) (col from) of
            Piece piece \<Rightarrow>
              if toLowerCase piece = playerColor
              then (if isSimpleMoveAttempt (board g) piece from to
                    then bindE (playerHasAnyCapture g playerColor) (\<lambda>captureAvailable.
                           if captureAvailable then Inr MustCapture else Inr InvalidMove)
                    else Inr InvalidMove)
              else Inr InvalidMove
          | _ \<Rightarrow> Inr InvalidMove)
       else bindE (applyMove g from to) (\<lambda>g'. Inr (GameUpdate g')))"

section \<open>The predecessor engine\<close>

text \<open>\<^verbatim>\<open>isValidMove\<close> of \<^verbatim>\<open>src/unnamed/part_000\<close> (no forced capture, no long-range king).\<close>

definition isValidMove_part000 :: "game \<Rightarrow> pos \<Rightarrow> pos \<Rightarrow> colour \<Rightarrow> error + bool" where
  "isValidMove_part000 g from to playerColor =
     (let b = board g; fr = row from; fc = col from; tr = row to; tc = col to in
      if status g \<noteq> Playing then Inr False
      else if currentPlayer g \<noteq> playerColor then Inr False
      else if fr = tr \<and> fc = tc then Inr False
      else if tr < 0 \<or> tr \<ge> 8 \<or> tc < 0 \<or> tc \<ge> 8 then Inr False
      else case rdOpt b fr fc of
        Piece piece \<Rightarrow>
          if toLowerCase piece \<noteq> playerColor then Inr False
          else if (case mustContinueFrom g of
                     Some m \<Rightarrow> row m \<noteq> fr \<or> col m \<noteq> fc
                   | None \<Rightarrow> False) then Inr False
          else bindE (rd b tr tc) (\<lambda>dest.
            if dest \<noteq> Null then Inr False
            else
              let dr = tr - fr; dc = tc - fc; absDr = \<bar>dr\<bar>; absDc = \<bar>dc\<bar>;
                  isWhite = (toLowerCase piece = White);
                  isCapture = (absDr = 2 \<and> absDc = 2);
                  isSimpleMove = (absDr = 1 \<and> absDc = 1) in
              if \<not> isCapture \<and> \<not> isSimpleMove then Inr False
              else if isCapture then
                (case rdOpt b (fr + dr / 2) (fc + dc / 2) of
                   Piece midPiece \<Rightarrow>
                     if toLowerCase midPiece = toLowerCase piece then Inr False
                     else Inr True
                 | _ \<Rightarrow> Inr False)
              else if mustContinueFrom g \<noteq> None then Inr False
              else if \<not> isKing piece
              then (if isWhite \<and> dr \<ge> 0 then Inr False
                    else if \<not> isWhite \<and> dr \<le> 0 then Inr False
                    else Inr True)
              else Inr True)
      | _ \<Rightarrow> Inr False)"


section \<open>Notions of the specification\<close>

text \<open>
  A board as \<^verbatim>\<open>createInitialBoard\<close> builds it and the engine keeps it: the 64 squares
  with index coordinates hold \<^verbatim>\<open>null\<close> or a piece, and there is no other property.
\<close>

definition wf_board :: "board \<Rightarrow> bool" where
  "wf_board b = (\<forall>r c. (b r c = Undefined) = (\<not> (isIndex r \<and> isIndex c)))"

text \<open>A Position of the data model: integer coordinates, of any range.\<close>

definition isPosition :: "pos \<Rightarrow> bool" where
  "isPosition p = (isInteger (row p) \<and> isInteger (col p))"

text \<open>
  The preconditions 1 to 5 of the legality check: status, turn, distinct squares with
  the destination inside the bounds, an own piece on the origin, the chain constraint.
\<close>

definition passesEarlyChecks :: "game \<Rightarrow> pos \<Rightarrow> pos \<Rightarrow> colour \<Rightarrow> bool" where
  "passesEarlyChecks g from to playerColor =
     (status g = Playing \<and> currentPlayer g = playerColor \<and>
      \<not> (row from = row to \<and> col from = col to) \<and>
      0 \<le> row to \<and> row to < 8 \<and> 0 \<le> col to \<and> col to < 8 \<and>
      (case rdOpt (board g) (row from) (col from) of
         Piece piece \<Rightarrow> toLowerCase piece = playerColor
       | _ \<Rightarrow> False) \<and>
      (case mustContinueFrom g of
         Some m \<Rightarrow> row m = row from \<and> col m = col from
       | None \<Rightarrow> True))"

text \<open>All six preconditions: the destination is moreover an empty square of the board.\<close>

definition preconditions :: "game \<Rightarrow> pos \<Rightarrow> pos \<Rightarrow> colour \<Rightarrow> bool" where
  "preconditions g from to playerColor =
     (passesEarlyChecks g from to playerColor \<and>
      rd (board g) (row to) (col to) = Inr Null)"


text \<open>Whether what a square holds is a piece of the other colour, or of the own colour.\<close>

definition isEnemyOf :: "piece \<Rightarrow> cell \<Rightarrow> bool" where
  "isEnemyOf p x = (case x of Piece q \<Rightarrow> toLowerCase q \<noteq> toLowerCase p | _ \<Rightarrow> False)"

definition isOwnOf :: "piece \<Rightarrow> cell \<Rightarrow> bool" where
  "isOwnOf p x = (case x of Piece q \<Rightarrow> toLowerCase q = toLowerCase p | _ \<Rightarrow> False)"

text \<open>
  The contents of the squares \<open>(fr + dirR * k, fc + dirC * k)\<close> for the distances
  \<open>k\<close> from \<open>d\<close> on that are smaller than \<open>absDr\<close>, in this order.
\<close>

definition lineCells :: "board \<Rightarrow> rat \<Rightarrow> rat \<Rightarrow> rat \<Rightarrow> rat \<Rightarrow> int \<Rightarrow> rat \<Rightarrow> cell list" where
  "lineCells b fr fc dirR dirC d absDr =
     map (\<lambda>k. b (fr + dirR * of_int k) (fc + dirC * of_int k)) [d..\<lceil>absDr\<rceil> - 1]"

text \<open>The contents of the squares a move passes over, strictly between origin and destination.\<close>

definition traversedCells :: "board \<Rightarrow> pos \<Rightarrow> pos \<Rightarrow> cell list" where
  "traversedCells b from to =
     lineCells b (row from) (col from) (dirOf (row to - row from)) (dirOf (col to - col from))
       1 \<bar>row to - row from\<bar>"

text \<open>
  The capture shapes of the move classification. For a king: a strictly diagonal line
  whose traversed squares hold exactly one enemy piece, no own piece, and are otherwise
  empty. For a man: a jump of exactly two rows and two columns over an enemy piece.
\<close>

definition kingCaptureLine :: "board \<Rightarrow> piece \<Rightarrow> pos \<Rightarrow> pos \<Rightarrow> bool" where
  "kingCaptureLine b p from to =
     (\<bar>row to - row from\<bar> = \<bar>col to - col from\<bar> \<and> row to \<noteq> row from \<and>
      length (filter (isEnemyOf p) (traversedCells b from to)) = 1 \<and>
      (\<forall>x \<in> set (traversedCells b from to). \<not> isOwnOf p x) \<and>
      (\<forall>x \<in> set (traversedCells b from to). \<not> isEnemyOf p x \<and> \<not> isOwnOf p x \<longrightarrow> x = Null))"

definition manCaptureJump :: "board \<Rightarrow> piece \<Rightarrow> pos \<Rightarrow> pos \<Rightarrow> bool" where
  "manCaptureJump b p from to =
     (\<bar>row to - row from\<bar> = 2 \<and> \<bar>col to - col from\<bar> = 2 \<and>
      isEnemyOf p (rdOpt b (row from + (row to - row from) / 2)
                           (col from + (col to - col from) / 2)))"

text \<open>The classification of a move as a capture; every other move is simple.\<close>

definition captureMove :: "game \<Rightarrow> pos \<Rightarrow> pos \<Rightarrow> bool" where
  "captureMove g from to =
     (case rdOpt (board g) (row from) (col from) of
        Piece p \<Rightarrow>
          if isKing p
          then kingCaptureLine (board g) p from to \<and> rdOpt (board g) (row to) (col to) = Null
          else manCaptureJump (board g) p from to
      | _ \<Rightarrow> False)"

text \<open>The other colour, and what a piece landing on a row is after promotion.\<close>

definition otherColour :: "colour \<Rightarrow> colour" where
  "otherColour k = (case k of White \<Rightarrow> Black | Black \<Rightarrow> White)"

definition promoted :: "piece \<Rightarrow> rat \<Rightarrow> piece" where
  "promoted p r =
     (if p = Man White \<and> r = 0 then King White
      else if p = Man Black \<and> r = 7 then King Black
      else p)"

text \<open>
  A legal-shaped simple move by the player's own piece: the six preconditions hold, no
  chain is active, and the shape is a man's single diagonal step towards the opposing
  back rank (white to smaller rows) or a king's diagonal line over empty squares. It is
  rejected solely for the mandatory capture when moreover a capture is available.
\<close>

definition legalSimpleMove :: "game \<Rightarrow> pos \<Rightarrow> pos \<Rightarrow> colour \<Rightarrow> bool" where
  "legalSimpleMove g from to playerColor =
     (preconditions g from to playerColor \<and> mustContinueFrom g = None \<and>
      (case rdOpt (board g) (row from) (col from) of
         Piece p \<Rightarrow>
           if isKing p
           then \<bar>row to - row from\<bar> = \<bar>col to - col from\<bar> \<and> row to \<noteq> row from \<and>
                (\<forall>x \<in> set (traversedCells (board g) from to). x = Null)
           else \<bar>row to - row from\<bar> = 1 \<and> \<bar>col to - col from\<bar> = 1 \<and>
                (if playerColor = White then row to < row from else row from < row to)
       | _ \<Rightarrow> False))"

definition rejectedSolelyForCapture :: "game \<Rightarrow> pos \<Rightarrow> pos \<Rightarrow> colour \<Rightarrow> bool" where
  "rejectedSolelyForCapture g from to playerColor =
     (legalSimpleMove g from to playerColor \<and> playerHasAnyCapture g playerColor = Inr True)"

text \<open>
  The shape the handler takes for a simple-move attempt: an own piece on the origin, an
  empty destination, and a man's single diagonal step in either direction or a king's
  diagonal line with no enemy piece on the way.
\<close>

definition simpleMoveAttempt :: "game \<Rightarrow> pos \<Rightarrow> pos \<Rightarrow> colour \<Rightarrow> bool" where
  "simpleMoveAttempt g from to playerColor =
     (case rdOpt (board g) (row from) (col from) of
        Piece p \<Rightarrow>
          toLowerCase p = playerColor \<and> rdOpt (board g) (row to) (col to) = Null \<and>
          (if isKing p
           then \<bar>row to - row from\<bar> = \<bar>col to - col from\<bar> \<and> row to \<noteq> row from \<and>
                (\<forall>x \<in> set (traversedCells (board g) from to). \<not> isEnemyOf p x)
           else \<bar>row to - row from\<bar> = 1 \<and> \<bar>col to - col from\<bar> = 1)
      | _ \<Rightarrow> False)"

text \<open>Every occupied square is a square of the board with an odd coordinate sum.\<close>

definition onDarkSquares :: "board \<Rightarrow> bool" where
  "onDarkSquares b =
     (\<forall>r c p. b r c = Piece p \<longrightarrow> isIndex r \<and> isIndex c \<and> odd \<lfloor>r + c\<rfloor>)"

text \<open>
  The states the server reaches: the fresh game, the status set to playing when the
  second player joins (\<^verbatim>\<open>joinRoom\<close>), and every move that \<^verbatim>\<open>isValidMove\<close> accepted and
  \<^verbatim>\<open>applyMove\<close> applied (the \<^verbatim>\<open>makeMove\<close> handler).
\<close>

inductive reachable :: "game \<Rightarrow> bool" where
  fresh: "reachable createNewGame"
| join: "reachable g \<Longrightarrow> reachable (g\<lparr>status := Playing\<rparr>)"
| move: "reachable g \<Longrightarrow> isValidMove g from to playerColor = Inr True \<Longrightarrow>
         applyMove g from to = Inr g' \<Longrightarrow> reachable g'"

subsection \<open>Example positions\<close>

text \<open>The fresh game once the second player has joined (\<^verbatim>\<open>joinRoom\<close> sets the status).\<close>

definition playingGame :: game where
  "playingGame = createNewGame\<lparr>status := Playing\<rparr>"

text \<open>A position given by its pieces, in a game that is being played.\<close>

definition boardOf :: "(rat \<times> rat \<times> piece) list \<Rightarrow> board" where
  "boardOf ps = foldr (\<lambda>(r, c, p) b. setCell b r c (Piece p)) ps emptyBoard"

definition gameOf :: "(rat \<times> rat \<times> piece) list \<Rightarrow> colour \<Rightarrow> pos option \<Rightarrow> game" where
  "gameOf ps player chain = \<lparr> board = boardOf ps, currentPlayer = player,
     status = Playing, winner = None, mustContinueFrom = chain \<rparr>"

text \<open>
  White has jumped from (5,2) over (4,3) to (3,4) and can go on over (2,3); another
  white man stands on (5,6).
\<close>

definition chainGame :: game where
  "chainGame = gameOf [(3, 4, Man White), (2, 3, Man Black), (5, 6, Man White)] White
     (Some \<lparr>row = 3, col = 4\<rparr>)"

text \<open>Scenario C: a white king on (4,4), black men on (2,2) and (0,0), white to move.\<close>

definition scenarioC :: game where
  "scenarioC = gameOf [(4, 4, King White), (2, 2, Man Black), (0, 0, Man Black)] White None"

text \<open>
  White to move with a capture available: the man on (4,3) can jump over (3,2); another
  white man stands on (6,1).
\<close>

definition forcedGame :: game where
  "forcedGame = gameOf [(4, 3, Man White), (3, 2, Man Black), (6, 1, Man White)] White None"


text \<open>White to move with a man on (1,2), one step from the last row.\<close>

definition promotionGame :: game where
  "promotionGame = gameOf [(1, 2, Man White), (5, 4, Man Black)] White None"

text \<open>
  White to move with a capture available (the man on (4,3) over (3,2)); a white king on
  (7,0) stands behind a white man on (6,1).
\<close>

definition blockedKingGame :: game where
  "blockedKingGame =
     gameOf [(4, 3, Man White), (3, 2, Man Black), (7, 0, King White), (6, 1, Man White)]
       White None"


section \<open>Facts about the engine\<close>

text \<open>The recursion equations of the loops are unfolded by hand, one step at a time.\<close>

declare kingScan.simps [simp del] kingPathEnemy.simps [simp del] kingPathScan.simps [simp del]
  kingRemove.simps [simp del] hasEnemyInPath.simps [simp del]

subsection \<open>Error monad and early returns\<close>

lemma bindE_Inr [simp]: "bindE (Inr x) f = f x"
  by (simp add: bindE_def)

lemma bindE_Inl [simp]: "bindE (Inl e) f = Inl e"
  by (simp add: bindE_def)

lemma bindE_eq_Inr: "(bindE m f = Inr y) = (\<exists>x. m = Inr x \<and> f x = Inr y)"
  by (cases m) auto

lemmas core_simps = if_True if_False simp_thms cell.case bindE_Inr bindE_Inl
  not_True_eq_False not_False_eq_True

lemma isValidMove_status: "status g \<noteq> Playing \<Longrightarrow> isValidMove g from to c = Inr False"
  by (simp add: isValidMove_def Let_def)

lemma isValidMove_turn: "currentPlayer g \<noteq> c \<Longrightarrow> isValidMove g from to c = Inr False"
  by (simp add: isValidMove_def Let_def)

lemma isValidMove_same:
  "row from = row to \<Longrightarrow> col from = col to \<Longrightarrow> isValidMove g from to c = Inr False"
  by (simp add: isValidMove_def Let_def)

lemma isValidMove_range:
  "row to < 0 \<or> 8 \<le> row to \<or> col to < 0 \<or> 8 \<le> col to \<Longrightarrow>
   isValidMove g from to c = Inr False"
  by (simp add: isValidMove_def Let_def)

lemma isValidMove_nopiece:
  "\<forall>p. rdOpt (board g) (row from) (col from) \<noteq> Piece p \<Longrightarrow>
   isValidMove g from to c = Inr False"
  by (cases "rdOpt (board g) (row from) (col from)") (simp_all add: isValidMove_def Let_def)

lemma isValidMove_notown:
  "rdOpt (board g) (row from) (col from) = Piece p \<Longrightarrow> toLowerCase p \<noteq> c \<Longrightarrow>
   isValidMove g from to c = Inr False"
  by (simp add: isValidMove_def Let_def)

lemma isValidMove_chain:
  "mustContinueFrom g = Some m \<Longrightarrow> row m \<noteq> row from \<or> col m \<noteq> col from \<Longrightarrow>
   isValidMove g from to c = Inr False"
  by (cases "rdOpt (board g) (row from) (col from)") (simp_all add: isValidMove_def Let_def)

lemma isValidMove_early:
  assumes "\<not> passesEarlyChecks g from to c"
  shows "isValidMove g from to c = Inr False"
proof -
  consider "status g \<noteq> Playing" | "currentPlayer g \<noteq> c"
    | "row from = row to \<and> col from = col to"
    | "row to < 0 \<or> 8 \<le> row to \<or> col to < 0 \<or> 8 \<le> col to"
    | "\<forall>p. rdOpt (board g) (row from) (col from) \<noteq> Piece p"
    | p where "rdOpt (board g) (row from) (col from) = Piece p" "toLowerCase p \<noteq> c"
    | m where "mustContinueFrom g = Some m" "row m \<noteq> row from \<or> col m \<noteq> col from"
    using assms
    by (cases "rdOpt (board g) (row from) (col from)"; cases "mustContinueFrom g")
       (auto simp: passesEarlyChecks_def not_le not_less)
  then show ?thesis
  proof cases
    case 1 then show ?thesis by (simp add: isValidMove_status)
  next
    case 2 then show ?thesis by (simp add: isValidMove_turn)
  next
    case 3 then show ?thesis by (simp add: isValidMove_same)
  next
    case 4 then show ?thesis by (simp add: isValidMove_range)
  next
    case 5 then show ?thesis by (simp add: isValidMove_nopiece)
  next
    case 6 then show ?thesis by (simp add: isValidMove_notown)
  next
    case 7 then show ?thesis by (simp add: isValidMove_chain)
  qed
qed

lemma passesEarlyChecksD:
  assumes "passesEarlyChecks g from to c"
  shows "(status g \<noteq> Playing) = False" "(currentPlayer g \<noteq> c) = False"
    "(row from = row to \<and> col from = col to) = False"
    "(row to < 0 \<or> 8 \<le> row to \<or> col to < 0 \<or> 8 \<le> col to) = False"
    "(case mustContinueFrom g of None \<Rightarrow> False
      | Some m \<Rightarrow> row m \<noteq> row from \<or> col m \<noteq> col from) = False"
    "\<exists>p. rdOpt (board g) (row from) (col from) = Piece p \<and> toLowerCase p = c"
  using assms
  by (auto simp: passesEarlyChecks_def split: cell.splits option.splits)

lemma isValidMove_dest_error:
  assumes pre: "passesEarlyChecks g from to c" and "rd (board g) (row to) (col to) = Inl e"
  shows "isValidMove g from to c = Inl e"
proof -
  from passesEarlyChecksD(6)[OF pre] obtain p
    where pc: "rdOpt (board g) (row from) (col from) = Piece p"
      and own: "(toLowerCase p \<noteq> c) = False" by auto
  show ?thesis
    unfolding isValidMove_def Let_def
    by (simp only: passesEarlyChecksD(1-5)[OF pre] pc own assms(2) core_simps)
qed

lemma isValidMove_dest_occupied:
  assumes pre: "passesEarlyChecks g from to c" and "rd (board g) (row to) (col to) = Inr v"
    and "v \<noteq> Null"
  shows "isValidMove g from to c = Inr False"
proof -
  from passesEarlyChecksD(6)[OF pre] obtain p
    where pc: "rdOpt (board g) (row from) (col from) = Piece p"
      and own: "(toLowerCase p \<noteq> c) = False" by auto
  from assms(3) have v: "(v \<noteq> Null) = True" by simp
  show ?thesis
    unfolding isValidMove_def Let_def
    by (simp only: passesEarlyChecksD(1-5)[OF pre] pc own assms(2) v core_simps)
qed

lemma isValidMove_not_pre:
  assumes "\<not> preconditions g from to c"
  shows "isValidMove g from to c \<noteq> Inr True"
proof (cases "passesEarlyChecks g from to c")
  case False
  then show ?thesis by (simp add: isValidMove_early)
next
  case True
  show ?thesis
  proof (cases "rd (board g) (row to) (col to)")
    case (Inl e)
    with True show ?thesis by (simp add: isValidMove_dest_error)
  next
    case (Inr v)
    with assms True have "v \<noteq> Null" by (simp add: preconditions_def)
    with True Inr show ?thesis by (simp add: isValidMove_dest_occupied)
  qed
qed

lemma preconditionsD:
  assumes "preconditions g from to c"
  shows "(status g \<noteq> Playing) = False" "(currentPlayer g \<noteq> c) = False"
    "(row from = row to \<and> col from = col to) = False"
    "(row to < 0 \<or> 8 \<le> row to \<or> col to < 0 \<or> 8 \<le> col to) = False"
    "rd (board g) (row to) (col to) = Inr Null"
    "(case mustContinueFrom g of None \<Rightarrow> False
      | Some m \<Rightarrow> row m \<noteq> row from \<or> col m \<noteq> col from) = False"
    "\<exists>p. rdOpt (board g) (row from) (col from) = Piece p \<and> toLowerCase p = c"
  using assms
  by (auto simp: preconditions_def passesEarlyChecks_def split: cell.splits option.splits)

lemma isValidMove_pre_king:
  assumes pre: "preconditions g from to c" 
    and pc: "rdOpt (board g) (row from) (col from) = Piece p" and k: "isKing p"
  shows "isValidMove g from to c =
     bindE (isCaptureMove (board g) p from to) (\<lambda>isCapture.
       bindE (if \<not> isCapture then playerHasAnyCapture g c else Inr False) (\<lambda>a.
         if \<not> isCapture \<and> a then Inr False
         else isValidKingMove g from to p (mustContinueFrom g)))"
proof -
  from preconditionsD(7)[OF pre] pc have own: "(toLowerCase p \<noteq> c) = False" by auto
  from k have k': "isKing p = True" by simp
  show ?thesis
    unfolding isValidMove_def Let_def
    by (simp only: preconditionsD(1-6)[OF pre] pc own k' core_simps)
qed

lemma isValidMove_pre_man_jump:
  assumes pre: "preconditions g from to c" 
    and pc: "rdOpt (board g) (row from) (col from) = Piece p" and k: "\<not> isKing p"
    and j: "\<bar>row to - row from\<bar> = 2" "\<bar>col to - col from\<bar> = 2"
  shows "isValidMove g from to c =
     (case rdOpt (board g) (row from + (row to - row from) / 2)
                 (col from + (col to - col from) / 2) of
        Piece midPiece \<Rightarrow> Inr (toLowerCase midPiece \<noteq> toLowerCase p)
      | _ \<Rightarrow> Inr False)"
proof -
  from preconditionsD(7)[OF pre] pc have own: "(toLowerCase p \<noteq> c) = False" by auto
  from k have k': "isKing p = False" by simp
  have "isValidMove g from to c =
     (case rdOpt (board g) (row from + (row to - row from) / 2)
                 (col from + (col to - col from) / 2) of
        Piece midPiece \<Rightarrow> if toLowerCase midPiece = toLowerCase p then Inr False else Inr True
      | _ \<Rightarrow> Inr False)"
    unfolding isValidMove_def isCaptureMove_def Let_def
    by (simp only: preconditionsD(1-6)[OF pre] pc own k' j core_simps)
  then show ?thesis
    by (simp split: cell.split)
qed

lemma isValidMove_pre_man_step:
  assumes pre: "preconditions g from to c" 
    and pc: "rdOpt (board g) (row from) (col from) = Piece p" and k: "\<not> isKing p"
    and j: "\<not> (\<bar>row to - row from\<bar> = 2 \<and> \<bar>col to - col from\<bar> = 2)"
  shows "isValidMove g from to c =
     bindE (playerHasAnyCapture g c) (\<lambda>a.
       Inr (\<not> a \<and> \<bar>row to - row from\<bar> = 1 \<and> \<bar>col to - col from\<bar> = 1 \<and>
            mustContinueFrom g = None \<and>
            (if c = White then row to - row from < 0 else row to - row from > 0)))"
proof -
  from preconditionsD(7)[OF pre] pc have own: "(toLowerCase p \<noteq> c) = False" by auto
  then have own': "toLowerCase p = c" by simp
  from k have k': "isKing p = False" by simp
  from j have j': "(\<bar>row to - row from\<bar> = 2 \<and> \<bar>col to - col from\<bar> = 2) = False" by simp
  have "isValidMove g from to c =
     bindE (playerHasAnyCapture g c) (\<lambda>a.
       if a then Inr False
       else if \<not> (\<bar>row to - row from\<bar> = 1 \<and> \<bar>col to - col from\<bar> = 1) then Inr False
       else if mustContinueFrom g \<noteq> None then Inr False
       else if c = White \<and> row to - row from \<ge> 0 then Inr False
       else if c \<noteq> White \<and> row to - row from \<le> 0 then Inr False
       else Inr True)"
    unfolding isValidMove_def isCaptureMove_def Let_def
    by (simp only: preconditionsD(1-6)[OF pre] pc own own' k' j' core_simps)
  also have "\<dots> = bindE (playerHasAnyCapture g c) (\<lambda>a.
       Inr (\<not> a \<and> \<bar>row to - row from\<bar> = 1 \<and> \<bar>col to - col from\<bar> = 1 \<and>
            mustContinueFrom g = None \<and>
            (if c = White then row to - row from < 0 else row to - row from > 0)))"
    by (rule arg_cong[where f="bindE (playerHasAnyCapture g c)"], rule ext)
       (auto simp: not_le not_less)
  finally show ?thesis .
qed


subsection \<open>The predecessor engine\<close>

lemma isValidMove_part000_early:
  assumes "\<not> passesEarlyChecks g from to c"
  shows "isValidMove_part000 g from to c = Inr False"
proof -
  consider "status g \<noteq> Playing" | "currentPlayer g \<noteq> c"
    | "row from = row to \<and> col from = col to"
    | "row to < 0 \<or> 8 \<le> row to \<or> col to < 0 \<or> 8 \<le> col to"
    | "\<forall>p. rdOpt (board g) (row from) (col from) \<noteq> Piece p"
    | p where "rdOpt (board g) (row from) (col from) = Piece p" "toLowerCase p \<noteq> c"
    | m where "mustContinueFrom g = Some m" "row m \<noteq> row from \<or> col m \<noteq> col from"
    using assms
    by (cases "rdOpt (board g) (row from) (col from)"; cases "mustContinueFrom g")
       (auto simp: passesEarlyChecks_def not_le not_less)
  then show ?thesis
  proof cases
    case 5 then show ?thesis
      by (cases "rdOpt (board g) (row from) (col from)")
         (simp_all add: isValidMove_part000_def Let_def)
  next
    case 7 then show ?thesis
      by (cases "rdOpt (board g) (row from) (col from)")
         (simp_all add: isValidMove_part000_def Let_def)
  qed (simp_all add: isValidMove_part000_def Let_def)
qed

lemma isValidMove_part000_dest_error:
  assumes pre: "passesEarlyChecks g from to c" and "rd (board g) (row to) (col to) = Inl e"
  shows "isValidMove_part000 g from to c = Inl e"
proof -
  from passesEarlyChecksD(6)[OF pre] obtain p
    where pc: "rdOpt (board g) (row from) (col from) = Piece p"
      and own: "(toLowerCase p \<noteq> c) = False" by auto
  show ?thesis
    unfolding isValidMove_part000_def Let_def
    by (simp only: passesEarlyChecksD(1-5)[OF pre] pc own assms(2) core_simps)
qed

lemma isValidMove_part000_dest_occupied:
  assumes pre: "passesEarlyChecks g from to c" and "rd (board g) (row to) (col to) = Inr v"
    and "v \<noteq> Null"
  shows "isValidMove_part000 g from to c = Inr False"
proof -
  from passesEarlyChecksD(6)[OF pre] obtain p
    where pc: "rdOpt (board g) (row from) (col from) = Piece p"
      and own: "(toLowerCase p \<noteq> c) = False" by auto
  from assms(3) have v: "(v \<noteq> Null) = True" by simp
  show ?thesis
    unfolding isValidMove_part000_def Let_def
    by (simp only: passesEarlyChecksD(1-5)[OF pre] pc own assms(2) v core_simps)
qed

lemma isValidMove_part000_pre_man_jump:
  assumes pre: "preconditions g from to c" 
    and pc: "rdOpt (board g) (row from) (col from) = Piece p"
    and j: "\<bar>row to - row from\<bar> = 2" "\<bar>col to - col from\<bar> = 2"
  shows "isValidMove_part000 g from to c =
     (case rdOpt (board g) (row from + (row to - row from) / 2)
                 (col from + (col to - col from) / 2) of
        Piece midPiece \<Rightarrow> Inr (toLowerCase midPiece \<noteq> toLowerCase p)
      | _ \<Rightarrow> Inr False)"
proof -
  from preconditionsD(7)[OF pre] pc have own: "(toLowerCase p \<noteq> c) = False" by auto
  have "isValidMove_part000 g from to c =
     (case rdOpt (board g) (row from + (row to - row from) / 2)
                 (col from + (col to - col from) / 2) of
        Piece midPiece \<Rightarrow> if toLowerCase midPiece = toLowerCase p then Inr False else Inr True
      | _ \<Rightarrow> Inr False)"
    unfolding isValidMove_part000_def Let_def
    by (simp only: preconditionsD(1-6)[OF pre] pc own j core_simps)
  then show ?thesis
    by (simp split: cell.split)
qed

lemma isValidMove_part000_pre_man_step:
  assumes pre: "preconditions g from to c" 
    and pc: "rdOpt (board g) (row from) (col from) = Piece p" and k: "\<not> isKing p"
    and j: "\<not> (\<bar>row to - row from\<bar> = 2 \<and> \<bar>col to - col from\<bar> = 2)"
  shows "isValidMove_part000 g from to c =
       Inr (\<bar>row to - row from\<bar> = 1 \<and> \<bar>col to - col from\<bar> = 1 \<and>
            mustContinueFrom g = None \<and>
            (if c = White then row to - row from < 0 else row to - row from > 0))"
proof -
  from preconditionsD(7)[OF pre] pc have own: "(toLowerCase p \<noteq> c) = False" by auto
  then have own': "toLowerCase p = c" by simp
  from k have k': "isKing p = False" by simp
  from j have j': "(\<bar>row to - row from\<bar> = 2 \<and> \<bar>col to - col from\<bar> = 2) = False" by simp
  have "isValidMove_part000 g from to c =
       (if \<not> (\<bar>row to - row from\<bar> = 1 \<and> \<bar>col to - col from\<bar> = 1) then Inr False
       else if mustContinueFrom g \<noteq> None then Inr False
       else if c = White \<and> row to - row from \<ge> 0 then Inr False
       else if c \<noteq> White \<and> row to - row from \<le> 0 then Inr False
       else Inr True)"
    unfolding isValidMove_part000_def Let_def
    by (simp only: preconditionsD(1-6)[OF pre] pc own own' k' j' core_simps)
  then show ?thesis
    by (auto simp: not_le not_less)
qed


subsection \<open>Index keys\<close>

lemma isInteger_Ints: "isInteger x = (x \<in> \<int>)"
  by (auto simp: isInteger_def Ints_def)

lemma isInteger_simps [simp]:
  "isInteger (of_int i)" "isInteger 0" "isInteger 1" "isInteger (numeral n)"
  "isInteger (stepVal s)" "isInteger (dirOf d)"
  by (cases s; simp add: isInteger_Ints dirOf_def)+

lemma isInteger_arith [simp]:
  "isInteger x \<Longrightarrow> isInteger y \<Longrightarrow> isInteger (x + y)"
  "isInteger x \<Longrightarrow> isInteger y \<Longrightarrow> isInteger (x - y)"
  "isInteger x \<Longrightarrow> isInteger y \<Longrightarrow> isInteger (x * y)"
  "isInteger x \<Longrightarrow> isInteger (- x)"
  by (simp_all add: isInteger_Ints)

lemma isIndex_iff: "isIndex x = (\<exists>i. x = of_int i \<and> 0 \<le> i \<and> i < 8)"
  by (auto simp: isIndex_def isInteger_Ints elim!: Ints_cases)

lemma isIndex_of_int [simp]: "isIndex (of_int i) = (0 \<le> i \<and> i < 8)"
  by (simp add: isIndex_def)

lemma isIndexI: "isInteger x \<Longrightarrow> 0 \<le> x \<Longrightarrow> x < 8 \<Longrightarrow> isIndex x"
  by (simp add: isIndex_def)

lemma isIndexD: "isIndex x \<Longrightarrow> isInteger x" "isIndex x \<Longrightarrow> 0 \<le> x" "isIndex x \<Longrightarrow> x < 8"
  by (simp_all add: isIndex_def)

lemma rd_index [simp]: "isIndex r \<Longrightarrow> rd b r c = Inr (b r c)"
  by (simp add: rd_def)

lemma rdOpt_index [simp]: "isIndex r \<Longrightarrow> rdOpt b r c = b r c"
  by (simp add: rdOpt_def)

lemma wr_index [simp]: "isIndex r \<Longrightarrow> wr b r c v = Inr (setCell b r c v)"
  by (simp add: wr_def)

lemma rd_eq_Inr: "(rd b r c = Inr v) = (isIndex r \<and> b r c = v)"
  by (auto simp: rd_def)

lemma rdOpt_eq_Piece: "(rdOpt b r c = Piece p) = (isIndex r \<and> b r c = Piece p)"
  by (auto simp: rdOpt_def)

lemma setCell_apply: "setCell b r c v r' c' = (if r' = r \<and> c' = c then v else b r' c')"
  by (simp add: setCell_def)

subsection \<open>Well-formed boards\<close>

lemma wf_board_cell:
  "wf_board b \<Longrightarrow> isIndex r \<Longrightarrow> isIndex c \<Longrightarrow> b r c = Null \<or> (\<exists>p. b r c = Piece p)"
  by (cases "b r c") (auto simp: wf_board_def)

lemma wf_board_Piece: "wf_board b \<Longrightarrow> b r c = Piece p \<Longrightarrow> isIndex r \<and> isIndex c"
  by (metis cell.distinct(3) wf_board_def)

lemma wf_board_Null: "wf_board b \<Longrightarrow> b r c = Null \<Longrightarrow> isIndex r \<and> isIndex c"
  by (metis cell.distinct(1) wf_board_def)

lemma wf_board_setCell:
  "wf_board b \<Longrightarrow> isIndex r \<Longrightarrow> isIndex c \<Longrightarrow> v \<noteq> Undefined \<Longrightarrow> wf_board (setCell b r c v)"
  by (auto simp: wf_board_def setCell_apply)

lemma wf_emptyBoard: "wf_board emptyBoard"
  by (simp add: wf_board_def emptyBoard_def)

lemma wf_boardOf:
  "\<forall>(r, c, p) \<in> set ps. isIndex r \<and> isIndex c \<Longrightarrow> wf_board (boardOf ps)"
  unfolding boardOf_def
  by (induction ps) (auto simp: wf_emptyBoard intro!: wf_board_setCell)

lemma wf_placeRows:
  assumes "wf_board b" and "\<forall>r \<in> set rs. 0 \<le> r \<and> r < 8"
  shows "wf_board (placeRows p rs b)"
proof -
  have inner: "wf_board (foldl (\<lambda>b' c. if (r + c) mod 2 = 1
                 then setCell b' (of_int r) (of_int c) (Piece p) else b') b' cs)"
    if "wf_board b'" "0 \<le> r \<and> r < 8" "\<forall>c \<in> set cs. 0 \<le> c \<and> c < 8" for b' r cs
    using that
    by (induction cs arbitrary: b') (simp_all add: wf_board_setCell)
  show ?thesis
    unfolding placeRows_def using assms
    by (induction rs arbitrary: b) (simp_all add: inner)
qed

lemma wf_createInitialBoard: "wf_board createInitialBoard"
  unfolding createInitialBoard_def
  by (intro wf_placeRows wf_emptyBoard) auto

subsection \<open>The scans along a line\<close>

lemma lineCells_step:
  "of_int d < absDr \<Longrightarrow>
   lineCells b fr fc dirR dirC d absDr =
     b (fr + dirR * of_int d) (fc + dirC * of_int d) # lineCells b fr fc dirR dirC (d + 1) absDr"
  by (simp add: lineCells_def less_ceiling_iff[symmetric] upto_rec1)

lemma lineCells_done: "\<not> of_int d < absDr \<Longrightarrow> lineCells b fr fc dirR dirC d absDr = []"
  by (simp add: lineCells_def less_ceiling_iff[symmetric])

lemma scan_measure: "of_int d < (absDr::rat) \<Longrightarrow> nat (\<lceil>absDr\<rceil> - (d + 1)) < nat (\<lceil>absDr\<rceil> - d)"
  by (simp add: less_ceiling_iff[symmetric])

lemma kingPathEnemy_cells:
  assumes "\<forall>k. d \<le> k \<and> of_int k < absDr \<longrightarrow> isIndex (fr + dirR * of_int k)"
  shows "kingPathEnemy b p fr fc dirR dirC d absDr =
         Inr (\<exists>x \<in> set (lineCells b fr fc dirR dirC d absDr). isEnemyOf p x)"
  using assms
proof (induction "nat (\<lceil>absDr\<rceil> - d)" arbitrary: d rule: less_induct)
  case less
  show ?case
  proof (cases "of_int d < absDr")
    case False
    then show ?thesis
      by (subst kingPathEnemy.simps) (simp add: lineCells_done)
  next
    case True
    with less.prems have idx: "isIndex (fr + dirR * of_int d)" by simp
    have IH: "kingPathEnemy b p fr fc dirR dirC (d + 1) absDr =
         Inr (\<exists>x \<in> set (lineCells b fr fc dirR dirC (d + 1) absDr). isEnemyOf p x)"
      using less.prems by (intro less.hyps scan_measure True) auto
    show ?thesis
      by (subst kingPathEnemy.simps)
         (simp add: True idx IH lineCells_step isEnemyOf_def split: cell.split)
  qed
qed

text \<open>What the scan of \<^verbatim>\<open>isValidKingMove\<close> computes from the squares it reads.\<close>

lemma kingPathScan_cells:
  assumes "\<forall>k. d \<le> k \<and> of_int k < absDr \<longrightarrow>
             isIndex (fr + dirR * of_int k) \<and>
             b (fr + dirR * of_int k) (fc + dirC * of_int k) \<noteq> Undefined"
  shows "kingPathScan b p fr fc dirR dirC d absDr foundEnemy =
         Inr (case filter (\<lambda>x. x \<noteq> Null) (lineCells b fr fc dirR dirC d absDr) of
                [] \<Rightarrow> Some foundEnemy
              | [x] \<Rightarrow> if isEnemyOf p x \<and> \<not> foundEnemy then Some True else None
              | _ \<Rightarrow> None)"
  using assms
proof (induction "nat (\<lceil>absDr\<rceil> - d)" arbitrary: d foundEnemy rule: less_induct)
  case less
  show ?case
  proof (cases "of_int d < absDr")
    case False
    then show ?thesis
      by (subst kingPathScan.simps) (simp add: lineCells_done)
  next
    case True
    with less.prems have idx: "isIndex (fr + dirR * of_int d)"
      and def: "b (fr + dirR * of_int d) (fc + dirC * of_int d) \<noteq> Undefined" by simp_all
    have IH: "kingPathScan b p fr fc dirR dirC (d + 1) absDr fe =
         Inr (case filter (\<lambda>x. x \<noteq> Null) (lineCells b fr fc dirR dirC (d + 1) absDr) of
                [] \<Rightarrow> Some fe
              | [x] \<Rightarrow> if isEnemyOf p x \<and> \<not> fe then Some True else None
              | _ \<Rightarrow> None)" for fe
      using less.prems by (intro less.hyps scan_measure True) auto
    show ?thesis
    proof (cases "b (fr + dirR * of_int d) (fc + dirC * of_int d)")
      case Undefined
      with def show ?thesis by simp
    next
      case Null
      then show ?thesis
        by (subst kingPathScan.simps) (simp add: True idx IH lineCells_step)
    next
      case (Piece q)
      then show ?thesis
        by (subst kingPathScan.simps)
           (simp add: True idx IH lineCells_step isEnemyOf_def split: list.split)
    qed
  qed
qed

lemma kingRemove_cells:
  assumes "\<forall>k. d \<le> k \<and> of_int k < absDr \<longrightarrow> isIndex (fr + dirR * of_int k)"
  shows "\<exists>b'. kingRemove b p fr fc dirR dirC d absDr =
               Inr (b', \<exists>x \<in> set (lineCells b fr fc dirR dirC d absDr). isEnemyOf p x) \<and>
             (if \<exists>x \<in> set (lineCells b fr fc dirR dirC d absDr). isEnemyOf p x
              then \<exists>k. d \<le> k \<and> of_int k < absDr \<and>
                   isEnemyOf p (b (fr + dirR * of_int k) (fc + dirC * of_int k)) \<and>
                   b' = setCell b (fr + dirR * of_int k) (fc + dirC * of_int k) Null
              else b' = b)"
  using assms
proof (induction "nat (\<lceil>absDr\<rceil> - d)" arbitrary: d rule: less_induct)
  case less
  show ?case
  proof (cases "of_int d < absDr")
    case False
    then show ?thesis
      by (subst kingRemove.simps) (simp add: lineCells_done)
  next
    case True
    with less.prems have idx: "isIndex (fr + dirR * of_int d)" by simp
    have "\<exists>b'. kingRemove b p fr fc dirR dirC (d + 1) absDr =
               Inr (b', \<exists>x \<in> set (lineCells b fr fc dirR dirC (d + 1) absDr). isEnemyOf p x) \<and>
             (if \<exists>x \<in> set (lineCells b fr fc dirR dirC (d + 1) absDr). isEnemyOf p x
              then \<exists>k. d + 1 \<le> k \<and> of_int k < absDr \<and>
                   isEnemyOf p (b (fr + dirR * of_int k) (fc + dirC * of_int k)) \<and>
                   b' = setCell b (fr + dirR * of_int k) (fc + dirC * of_int k) Null
              else b' = b)"
      using less.prems by (intro less.hyps scan_measure True) auto
    then obtain b' where IH: "kingRemove b p fr fc dirR dirC (d + 1) absDr =
               Inr (b', \<exists>x \<in> set (lineCells b fr fc dirR dirC (d + 1) absDr). isEnemyOf p x)"
      and IH2: "if \<exists>x \<in> set (lineCells b fr fc dirR dirC (d + 1) absDr). isEnemyOf p x
              then \<exists>k. d \<le> k \<and> of_int k < absDr \<and>
                   isEnemyOf p (b (fr + dirR * of_int k) (fc + dirC * of_int k)) \<and>
                   b' = setCell b (fr + dirR * of_int k) (fc + dirC * of_int k) Null
              else b' = b"
      by (force split: if_splits)
    show ?thesis
    proof (cases "isEnemyOf p (b (fr + dirR * of_int d) (fc + dirC * of_int d))")
      case enemy: True
      then have "kingRemove b p fr fc dirR dirC d absDr =
          Inr (setCell b (fr + dirR * of_int d) (fc + dirC * of_int d) Null, True)"
        by (subst kingRemove.simps)
           (simp add: True idx isEnemyOf_def split: cell.splits)
      with enemy True show ?thesis
        by (auto simp: lineCells_step)
    next
      case noenemy: False
      then have "kingRemove b p fr fc dirR dirC d absDr =
          kingRemove b p fr fc dirR dirC (d + 1) absDr"
        by (subst kingRemove.simps)
           (simp add: True idx isEnemyOf_def split: cell.splits)
      with noenemy True IH IH2 show ?thesis
        by (simp add: lineCells_step)
    qed
  qed
qed

subsection \<open>The capture scanner raises nothing on a well-formed board\<close>

lemma ex_bool [simp]: "\<exists>v. \<not> v" "\<exists>v::bool. v"
  by auto

lemma index_step:
  assumes "isIndex x" and "0 \<le> x + stepVal s * of_int k" and "x + stepVal s * of_int k < 8"
  shows "isIndex (x + stepVal s * of_int k)"
  using assms by (intro isIndexI) (simp_all add: isIndexD)

lemma kingScan_total:
  assumes wf: "wf_board b" and r: "isIndex r" and c: "isIndex c"
  shows "\<exists>v. kingScan b (Piece p) r c sr sc d fe = Inr v"
proof (induction "nat \<lceil>(if sr = Plus1 then 8 - (r + of_int d) else r - of_int d + 1)\<rceil>"
         arbitrary: d fe rule: less_induct)
  case less
  let ?R = "r + stepVal sr * of_int d" and ?C = "c + stepVal sc * of_int d"
  show ?case
  proof (cases "?R < 0 \<or> ?R \<ge> 8 \<or> ?C < 0 \<or> ?C \<ge> 8")
    case True
    then show ?thesis
      by (subst kingScan.simps) (simp add: Let_def)
  next
    case False
    then have bounds: "0 \<le> ?R" "?R < 8" "0 \<le> ?C" "?C < 8" by auto
    then have idx: "isIndex ?R" "isIndex ?C"
      using r c by (auto intro: index_step)
    have dec: "nat \<lceil>(if sr = Plus1 then 8 - (r + of_int (d + 1)) else r - of_int (d + 1) + 1)\<rceil>
             < nat \<lceil>(if sr = Plus1 then 8 - (r + of_int d) else r - of_int d + 1)\<rceil>"
      using bounds(1,2) by (cases sr) (simp_all, linarith+)
    have IH: "\<exists>v. kingScan b (Piece p) r c sr sc (d + 1) fe' = Inr v" for fe'
      by (rule less.hyps[OF dec])
    from wf_board_cell[OF wf idx] show ?thesis
    proof
      assume "b ?R ?C = Null"
      with IH[of fe] show ?thesis
        by (subst kingScan.simps) (auto simp: Let_def False idx)
    next
      assume "\<exists>q. b ?R ?C = Piece q"
      then obtain q where "b ?R ?C = Piece q" ..
      with IH[of True] show ?thesis
        by (subst kingScan.simps) (auto simp: Let_def False idx)
    qed
  qed
qed

lemma kingDirs_total:
  assumes "wf_board b" and "isIndex r" and "isIndex c"
  shows "\<exists>v. kingDirs b (Piece p) r c ds = Inr v"
proof (induction ds)
  case Nil
  show ?case by simp
next
  case (Cons d ds)
  obtain sr sc where d: "d = (sr, sc)" by (cases d)
  from kingScan_total[OF assms] obtain v where "kingScan b (Piece p) r c sr sc 1 False = Inr v"
    by blast
  with Cons d show ?case by auto
qed

lemma regularDirs_total:
  assumes wf: "wf_board b" and r: "isIndex r" and c: "isIndex c"
  shows "\<exists>v. regularDirs b (Piece p) r c ds = Inr v"
proof (induction ds)
  case Nil
  show ?case by simp
next
  case (Cons d ds)
  obtain sr sc where d: "d = (sr, sc)" by (cases d)
  let ?mR = "r + stepVal sr" and ?mC = "c + stepVal sc"
  let ?lR = "r + 2 * stepVal sr" and ?lC = "c + 2 * stepVal sc"
  show ?case
  proof (cases "?lR < 0 \<or> ?lR \<ge> 8 \<or> ?lC < 0 \<or> ?lC \<ge> 8 \<or>
                ?mR < 0 \<or> ?mR \<ge> 8 \<or> ?mC < 0 \<or> ?mC \<ge> 8")
    case True
    with Cons d show ?thesis by (simp add: Let_def)
  next
    case False
    then have idx: "isIndex ?mR" "isIndex ?mC" "isIndex ?lR" "isIndex ?lC"
      using r c by (auto intro!: isIndexI simp: isIndexD)
    from wf_board_cell[OF wf idx(1,2)] wf_board_cell[OF wf idx(3,4)] Cons d False idx
    show ?thesis
      by (auto simp: Let_def)
  qed
qed

lemma hasCaptureFrom_total:
  assumes wf: "wf_board (board g)"
  shows "\<exists>v. hasCaptureFrom g r c = Inr v"
proof (cases "rdOpt (board g) r c")
  case (Piece p)
  then have "isIndex r" "board g r c = Piece p" by (simp_all add: rdOpt_eq_Piece)
  with wf have idx: "isIndex r" "isIndex c" by (auto dest: wf_board_Piece)
  from Piece idx kingDirs_total[OF wf idx] regularDirs_total[OF wf idx] \<open>board g r c = Piece p\<close>
  show ?thesis
    by (simp add: hasCaptureFrom_def hasKingCaptureFrom_def hasRegularCaptureFrom_def)
qed (simp_all add: hasCaptureFrom_def)

lemma anyCaptureAmong_total:
  assumes wf: "wf_board (board g)"
  shows "\<exists>v. anyCaptureAmong g ps = Inr v"
proof (induction ps)
  case Nil
  show ?case by simp
next
  case (Cons x ps)
  obtain r c p where x: "x = (r, c, p)" by (cases x)
  from hasCaptureFrom_total[OF wf] obtain v where "hasCaptureFrom g r c = Inr v" by blast
  with Cons x show ?case by auto
qed

lemma playerHasAnyCapture_total:
  assumes wf: "wf_board (board g)"
  shows "\<exists>v. playerHasAnyCapture g c = Inr v"
  using hasCaptureFrom_total[OF wf] anyCaptureAmong_total[OF wf]
  by (simp add: playerHasAnyCapture_def split: option.split)

subsection \<open>Squares between two squares of the board\<close>

lemma between_index:
  assumes "isIndex x" and "isIndex y" and "1 \<le> k" and "of_int k < n" and "n \<le> \<bar>y - x\<bar>"
  shows "isIndex (x + dirOf (y - x) * of_int k)"
proof (intro isIndexI)
  show "isInteger (x + dirOf (y - x) * of_int k)"
    using assms(1) by (simp add: isIndexD)
  show "0 \<le> x + dirOf (y - x) * of_int k" "x + dirOf (y - x) * of_int k < 8"
    using assms isIndexD(2,3)[of x] isIndexD(2,3)[of y]
    by (auto simp: dirOf_def abs_if split: if_splits)
qed

subsection \<open>What an accepted move looks like\<close>

lemma traversed_index:
  assumes "isIndex (row from)" "isIndex (col from)" "isIndex (row to)" "isIndex (col to)"
    and "1 \<le> k" and "of_int k < \<bar>row to - row from\<bar>"
  shows "isIndex (row from + dirOf (row to - row from) * of_int k)"
    and "\<bar>row to - row from\<bar> = \<bar>col to - col from\<bar> \<Longrightarrow>
         isIndex (col from + dirOf (col to - col from) * of_int k)"
  using assms by (auto intro: between_index)

lemma mid_index:
  assumes x: "isIndex x" and y: "isIndex y" and d: "\<bar>y - x\<bar> = 2"
  shows "isIndex (x + (y - x) / 2)"
proof -
  from d consider "y - x = 2" | "y - x = - 2" by (auto simp: abs_if split: if_splits)
  then show ?thesis
  proof cases
    case 1
    then have "x + (y - x) / 2 = x + 1" "x + 1 < 8"
      using isIndexD(3)[OF y] by simp_all
    then show ?thesis
      using isIndexD(1,2)[OF x] by (auto intro!: isIndexI)
  next
    case 2
    then have "x + (y - x) / 2 = x - 1" "0 \<le> x - 1"
      using isIndexD(2)[OF y] by simp_all
    then show ?thesis
      using isIndexD(1,3)[OF x] by (auto intro!: isIndexI)
  qed
qed

lemma isCaptureMove_king:
  assumes "isIndex (row from)" "isIndex (col from)" "isIndex (row to)" "isIndex (col to)"
    and "isKing p"
  shows "isCaptureMove b p from to = Inr (\<exists>x \<in> set (traversedCells b from to). isEnemyOf p x)"
  unfolding isCaptureMove_def traversedCells_def Let_def
  using assms by (simp add: kingPathEnemy_cells traversed_index)

lemma isCaptureMove_man:
  "\<not> isKing p \<Longrightarrow>
   isCaptureMove b p from to =
     Inr (\<bar>row to - row from\<bar> = 2 \<and> \<bar>col to - col from\<bar> = 2)"
  by (simp add: isCaptureMove_def Let_def)

lemma isValidKingMove_cells:
  assumes wf: "wf_board (board g)"
    and idx: "isIndex (row from)" "isIndex (col from)" "isIndex (row to)" "isIndex (col to)"
    and dest: "board g (row to) (col to) = Null"
  shows "isValidKingMove g from to p mcf =
     Inr (\<bar>row to - row from\<bar> = \<bar>col to - col from\<bar> \<and> 1 \<le> \<bar>row to - row from\<bar> \<and>
          (case filter (\<lambda>x. x \<noteq> Null) (traversedCells (board g) from to) of
             [] \<Rightarrow> mcf = None
           | [x] \<Rightarrow> isEnemyOf p x
           | _ \<Rightarrow> False))"
proof (cases "\<bar>row to - row from\<bar> = \<bar>col to - col from\<bar> \<and> 1 \<le> \<bar>row to - row from\<bar>")
  case False
  then show ?thesis
    by (auto simp: isValidKingMove_def Let_def)
next
  case True
  then have diag: "\<bar>row to - row from\<bar> = \<bar>col to - col from\<bar>" by simp
  have cells: "\<forall>k. 1 \<le> k \<and> of_int k < \<bar>row to - row from\<bar> \<longrightarrow>
      isIndex (row from + dirOf (row to - row from) * of_int k) \<and>
      board g (row from + dirOf (row to - row from) * of_int k)
              (col from + dirOf (col to - col from) * of_int k) \<noteq> Undefined"
    using traversed_index[OF idx] diag wf by (auto simp: wf_board_def)
  have scan: "kingPathScan (board g) p (row from) (col from) (dirOf (row to - row from))
        (dirOf (col to - col from)) 1 \<bar>row to - row from\<bar> False =
      Inr (case filter (\<lambda>x. x \<noteq> Null) (traversedCells (board g) from to) of
                [] \<Rightarrow> Some False
              | [x] \<Rightarrow> if isEnemyOf p x \<and> \<not> False then Some True else None
              | _ \<Rightarrow> None)"
    unfolding traversedCells_def by (rule kingPathScan_cells[OF cells])
  have t1: "(\<bar>row to - row from\<bar> \<noteq> \<bar>col to - col from\<bar>) = False"
    and t2: "(\<bar>row to - row from\<bar> < 1) = False"
    using True by auto
  have "isValidKingMove g from to p mcf =
     (case (case filter (\<lambda>x. x \<noteq> Null) (traversedCells (board g) from to) of
                [] \<Rightarrow> Some False
              | [x] \<Rightarrow> if isEnemyOf p x \<and> \<not> False then Some True else None
              | _ \<Rightarrow> None) of
        None \<Rightarrow> Inr False
      | Some foundEnemy \<Rightarrow> if foundEnemy then Inr True
                           else if mcf \<noteq> None then Inr False else Inr True)"
    unfolding isValidKingMove_def Let_def
    by (simp only: t1 t2 scan rd_index[OF idx(3)] dest core_simps)
  also have "\<dots> = Inr (case filter (\<lambda>x. x \<noteq> Null) (traversedCells (board g) from to) of
             [] \<Rightarrow> mcf = None
           | [x] \<Rightarrow> isEnemyOf p x
           | _ \<Rightarrow> False)"
    by (simp split: list.split)
  finally show ?thesis using True by simp
qed

lemma preconditions_index:
  assumes wf: "wf_board (board g)" and pre: "preconditions g from to c"
  shows "isIndex (row from)" "isIndex (col from)" "isIndex (row to)" "isIndex (col to)"
    "board g (row to) (col to) = Null"
    "\<exists>p. board g (row from) (col from) = Piece p \<and> toLowerCase p = c"
proof -
  from preconditionsD(7)[OF pre] obtain p
    where p: "isIndex (row from)" "board g (row from) (col from) = Piece p" "toLowerCase p = c"
    by (auto simp: rdOpt_eq_Piece)
  from preconditionsD(5)[OF pre]
  have d: "isIndex (row to)" "board g (row to) (col to) = Null"
    by (simp_all add: rd_eq_Inr)
  from p d wf show "isIndex (row from)" "isIndex (col from)" "isIndex (row to)"
    "isIndex (col to)" "board g (row to) (col to) = Null"
    "\<exists>p. board g (row from) (col from) = Piece p \<and> toLowerCase p = c"
    by (auto dest: wf_board_Piece wf_board_Null)
qed

lemma isValidMove_total:
  assumes wf: "wf_board (board g)" and int: "isInteger (row to)"
  shows "\<exists>v. isValidMove g from to c = Inr v"
proof (cases "passesEarlyChecks g from to c")
  case False
  then show ?thesis by (simp add: isValidMove_early)
next
  case early: True
  then have "isIndex (row to)"
    using int by (auto simp: passesEarlyChecks_def intro: isIndexI)
  then have rd: "rd (board g) (row to) (col to) = Inr (board g (row to) (col to))"
    by simp
  show ?thesis
  proof (cases "board g (row to) (col to) = Null")
    case False
    with early rd show ?thesis by (simp add: isValidMove_dest_occupied)
  next
    case True
    with early rd have pre: "preconditions g from to c"
      by (simp add: preconditions_def)
    note idx = preconditions_index(1-4)[OF wf pre]
    from preconditions_index(6)[OF wf pre] obtain p
      where p: "board g (row from) (col from) = Piece p" by blast
    with idx have pc: "rdOpt (board g) (row from) (col from) = Piece p" by simp
    from playerHasAnyCapture_total[OF wf] obtain a
      where a: "playerHasAnyCapture g c = Inr a" by blast
    show ?thesis
    proof (cases "isKing p")
      case True
      show ?thesis
        by (simp add: isValidMove_pre_king[OF pre pc True] isCaptureMove_king[OF idx True] a
              isValidKingMove_cells[OF wf idx preconditions_index(5)[OF wf pre]])
    next
      case False
      show ?thesis
      proof (cases "\<bar>row to - row from\<bar> = 2 \<and> \<bar>col to - col from\<bar> = 2")
        case True
        then show ?thesis
          by (simp add: isValidMove_pre_man_jump[OF pre pc False] split: cell.split)
      next
        case nj: False
        show ?thesis
          by (simp add: isValidMove_pre_man_step[OF pre pc False nj] a)
      qed
    qed
  qed
qed

lemma isValidMove_TrueD:
  assumes wf: "wf_board (board g)" and valid: "isValidMove g from to c = Inr True"
  shows "preconditions g from to c"
    "isIndex (row from)" "isIndex (col from)" "isIndex (row to)" "isIndex (col to)"
    "board g (row to) (col to) = Null"
    "\<exists>p. board g (row from) (col from) = Piece p \<and> toLowerCase p = c"
proof -
  from valid show pre: "preconditions g from to c"
    using isValidMove_not_pre by blast
  from preconditions_index[OF wf pre]
  show "isIndex (row from)" "isIndex (col from)" "isIndex (row to)" "isIndex (col to)"
    "board g (row to) (col to) = Null"
    "\<exists>p. board g (row from) (col from) = Piece p \<and> toLowerCase p = c"
    by blast+
qed

lemma isValidMove_king_iff:
  assumes wf: "wf_board (board g)" and pre: "preconditions g from to c"
    and p: "board g (row from) (col from) = Piece p" and k: "isKing p"
  shows "(isValidMove g from to c = Inr True) =
     (\<bar>row to - row from\<bar> = \<bar>col to - col from\<bar> \<and> 1 \<le> \<bar>row to - row from\<bar> \<and>
      (case filter (\<lambda>x. x \<noteq> Null) (traversedCells (board g) from to) of
         [] \<Rightarrow> mustContinueFrom g = None \<and> playerHasAnyCapture g c = Inr False
       | [x] \<Rightarrow> isEnemyOf p x
       | _ \<Rightarrow> False))"
proof -
  note idx = preconditions_index(1-4)[OF wf pre]
  from p idx have pc: "rdOpt (board g) (row from) (col from) = Piece p" by simp
  from playerHasAnyCapture_total[OF wf] obtain a
    where a: "playerHasAnyCapture g c = Inr a" by blast
  have enemy: "(\<exists>x \<in> set (traversedCells (board g) from to). isEnemyOf p x) =
      (\<exists>x \<in> set (filter (\<lambda>x. x \<noteq> Null) (traversedCells (board g) from to)). isEnemyOf p x)"
    by (auto simp: isEnemyOf_def)
  show ?thesis
    unfolding isValidMove_pre_king[OF pre pc k] isCaptureMove_king[OF idx k] a
      isValidKingMove_cells[OF wf idx preconditions_index(5)[OF wf pre]] enemy
    by (cases "filter (\<lambda>x. x \<noteq> Null) (traversedCells (board g) from to)" rule: list.exhaust;
        cases "tl (filter (\<lambda>x. x \<noteq> Null) (traversedCells (board g) from to))")
       auto
qed

lemma isValidMove_man_iff:
  assumes wf: "wf_board (board g)" and pre: "preconditions g from to c"
    and p: "board g (row from) (col from) = Piece p" and k: "\<not> isKing p"
  shows "(isValidMove g from to c = Inr True) =
     ((\<bar>row to - row from\<bar> = 2 \<and> \<bar>col to - col from\<bar> = 2 \<and>
       isEnemyOf p (board g (row from + (row to - row from) / 2)
                            (col from + (col to - col from) / 2))) \<or>
      (\<bar>row to - row from\<bar> = 1 \<and> \<bar>col to - col from\<bar> = 1 \<and>
       mustContinueFrom g = None \<and> playerHasAnyCapture g c = Inr False \<and>
       (if c = White then row to < row from else row from < row to)))"
proof -
  note idx = preconditions_index(1-4)[OF wf pre]
  from p idx have pc: "rdOpt (board g) (row from) (col from) = Piece p" by simp
  from playerHasAnyCapture_total[OF wf] obtain a
    where a: "playerHasAnyCapture g c = Inr a" by blast
  show ?thesis
  proof (cases "\<bar>row to - row from\<bar> = 2 \<and> \<bar>col to - col from\<bar> = 2")
    case True
    then have "isIndex (row from + (row to - row from) / 2)"
      using idx(1,3) by (simp add: mid_index)
    with True show ?thesis
      by (simp add: isValidMove_pre_man_jump[OF pre pc k] isEnemyOf_def split: cell.split)
  next
    case False
    then show ?thesis
      by (auto simp: isValidMove_pre_man_step[OF pre pc k False] a)
  qed
qed

subsection \<open>Exactly one enemy piece on the way\<close>

lemma isEnemyOf_simps [simp]:
  "\<not> isEnemyOf p Null" "\<not> isEnemyOf p Undefined"
  "isEnemyOf p (Piece q) = (toLowerCase q \<noteq> toLowerCase p)"
  by (simp_all add: isEnemyOf_def)

lemma isOwnOf_simps [simp]:
  "\<not> isOwnOf p Null" "\<not> isOwnOf p Undefined"
  "isOwnOf p (Piece q) = (toLowerCase q = toLowerCase p)"
  by (simp_all add: isOwnOf_def)

lemma no_piece_cells:
  "(filter (\<lambda>x. x \<noteq> Null) cs = []) =
   (filter (isEnemyOf p) cs = [] \<and> (\<forall>x \<in> set cs. \<not> isOwnOf p x) \<and>
    (\<forall>x \<in> set cs. \<not> isEnemyOf p x \<and> \<not> isOwnOf p x \<longrightarrow> x = Null))"
  by (induction cs) (auto simp: isEnemyOf_def isOwnOf_def split: cell.splits)

lemma one_enemy_cells:
  "(\<exists>x. filter (\<lambda>x. x \<noteq> Null) cs = [x] \<and> isEnemyOf p x) =
   (length (filter (isEnemyOf p) cs) = 1 \<and> (\<forall>x \<in> set cs. \<not> isOwnOf p x) \<and>
    (\<forall>x \<in> set cs. \<not> isEnemyOf p x \<and> \<not> isOwnOf p x \<longrightarrow> x = Null))"
proof (induction cs)
  case Nil
  show ?case by simp
next
  case (Cons c cs)
  show ?case
  proof (cases "c = Null")
    case True
    with Cons show ?thesis by (simp add: isEnemyOf_def isOwnOf_def)
  next
    case False
    have own: "isOwnOf p c \<Longrightarrow> \<not> isEnemyOf p c"
      by (auto simp: isEnemyOf_def isOwnOf_def split: cell.splits)
    show ?thesis
    proof (cases "isEnemyOf p c")
      case True
      then have "\<not> isOwnOf p c" using own by blast
      with True False show ?thesis
        using no_piece_cells[of cs p] by auto
    next
      case ne: False
      with False show ?thesis by auto
    qed
  qed
qed

lemma king_capture_iff:
  assumes wf: "wf_board (board g)" and pre: "preconditions g from to c"
    and p: "board g (row from) (col from) = Piece p" and k: "isKing p"
  shows "(isValidMove g from to c = Inr True \<and> isCaptureMove (board g) p from to = Inr True) =
         kingCaptureLine (board g) p from to"
proof -
  note idx = preconditions_index(1-4)[OF wf pre]
  let ?cs = "traversedCells (board g) from to"
  have nz: "(1 \<le> \<bar>row to - row from\<bar>) = (row to \<noteq> row from)"
  proof -
    from idx(1,3) obtain i j where "row from = of_int i" "row to = of_int j"
      by (auto simp: isIndex_iff)
    then show ?thesis by (auto simp: abs_if)
  qed
  have enemyD: "\<exists>x \<in> set ?cs. isEnemyOf p x"
    if "filter (\<lambda>x. x \<noteq> Null) ?cs = [x]" "isEnemyOf p x" for x
  proof -
    from that(1) have "x \<in> set (filter (\<lambda>x. x \<noteq> Null) ?cs)" by simp
    with that(2) show ?thesis by auto
  qed
  have "(isValidMove g from to c = Inr True \<and> isCaptureMove (board g) p from to = Inr True) =
        (\<bar>row to - row from\<bar> = \<bar>col to - col from\<bar> \<and> 1 \<le> \<bar>row to - row from\<bar> \<and>
         (\<exists>x. filter (\<lambda>x. x \<noteq> Null) ?cs = [x] \<and> isEnemyOf p x))"
    unfolding isValidMove_king_iff[OF wf pre p k] isCaptureMove_king[OF idx k]
    by (cases "filter (\<lambda>x. x \<noteq> Null) ?cs" rule: list.exhaust;
        cases "tl (filter (\<lambda>x. x \<noteq> Null) ?cs)")
       (auto simp: filter_empty_conv dest: enemyD)
  then show ?thesis
    by (simp add: kingCaptureLine_def one_enemy_cells nz)
qed

lemma wf_gameOf:
  "\<forall>(r, c, p) \<in> set ps. isIndex r \<and> isIndex c \<Longrightarrow> wf_board (board (gameOf ps player chain))"
  by (simp add: gameOf_def wf_boardOf)

lemma isIndex_numeral [simp]:
  "isIndex 0" "isIndex 1" "isIndex 2" "isIndex 3" "isIndex 4" "isIndex 5" "isIndex 6" "isIndex 7"
  by (simp_all add: isIndex_def)


subsection \<open>Applying an accepted move\<close>

lemma setCell_setCell [simp]: "setCell (setCell b r c v) r c w = setCell b r c w"
  by (simp add: setCell_def)

lemma dirOf_cases: "dirOf x = 1 \<or> dirOf x = - 1"
  by (simp add: dirOf_def)

lemma lineCells_setCell_origin:
  assumes "1 \<le> d"
  shows "lineCells (setCell b fr fc v) fr fc (dirOf x) dirC d n =
         lineCells b fr fc (dirOf x) dirC d n"
  unfolding lineCells_def
  using assms dirOf_cases[of x]
  by (intro map_cong[OF refl]) (auto simp: setCell_apply)


lemma mid_cases:
  assumes "\<bar>y - x\<bar> = (2::rat)"
  shows "x + (y - x) / 2 = x + 1 \<and> y = x + 2 \<or> x + (y - x) / 2 = x - 1 \<and> y = x - 2"
proof -
  from assms consider "y - x = 2" | "y - x = - 2" by (auto simp: abs_if split: if_splits)
  then show ?thesis by cases auto
qed

lemma removeCaptured_valid:
  assumes wf: "wf_board (board g)" and valid: "isValidMove g from to c = Inr True"
    and p: "board g (row from) (col from) = Piece p"
  shows "\<exists>b2 cap. removeCaptured (setCell (board g) (row from) (col from) Null) p from to
                    = Inr (b2, cap) \<and>
          isCaptureMove (board g) p from to = Inr cap \<and>
          (if cap
           then \<exists>r c. isIndex r \<and> isIndex c \<and> \<not> (r = row from \<and> c = col from) \<and>
                  \<not> (r = row to \<and> c = col to) \<and> isEnemyOf p (board g r c) \<and>
                  b2 = setCell (setCell (board g) (row from) (col from) Null) r c Null
           else b2 = setCell (board g) (row from) (col from) Null)"
proof -
  note pre = isValidMove_TrueD(1)[OF wf valid]
  note idx = isValidMove_TrueD(2-5)[OF wf valid]
  note dest = isValidMove_TrueD(6)[OF wf valid]
  let ?b1 = "setCell (board g) (row from) (col from) Null"
  let ?dR = "dirOf (row to - row from)" and ?dC = "dirOf (col to - col from)"
  show ?thesis
  proof (cases "isKing p")
    case True
    from valid have diag: "\<bar>row to - row from\<bar> = \<bar>col to - col from\<bar>"
      unfolding isValidMove_king_iff[OF wf pre p True] by simp
    have rows: "\<forall>k. 1 \<le> k \<and> of_int k < \<bar>row to - row from\<bar> \<longrightarrow>
                  isIndex (row from + ?dR * of_int k)"
      using traversed_index(1)[OF idx] by blast
    have cells: "lineCells ?b1 (row from) (col from) ?dR ?dC 1 \<bar>row to - row from\<bar>
                 = traversedCells (board g) from to"
      by (simp add: traversedCells_def lineCells_setCell_origin)
    from kingRemove_cells[OF rows, of ?b1 p "col from" ?dC] obtain b2
      where rem: "kingRemove ?b1 p (row from) (col from) ?dR ?dC 1 \<bar>row to - row from\<bar> =
                  Inr (b2, \<exists>x \<in> set (traversedCells (board g) from to). isEnemyOf p x)"
        and str: "if \<exists>x \<in> set (traversedCells (board g) from to). isEnemyOf p x
              then \<exists>k. 1 \<le> k \<and> of_int k < \<bar>row to - row from\<bar> \<and>
                   isEnemyOf p (?b1 (row from + ?dR * of_int k) (col from + ?dC * of_int k)) \<and>
                   b2 = setCell ?b1 (row from + ?dR * of_int k) (col from + ?dC * of_int k) Null
              else b2 = ?b1"
      unfolding cells by blast
    have rc: "removeCaptured ?b1 p from to =
              Inr (b2, \<exists>x \<in> set (traversedCells (board g) from to). isEnemyOf p x)"
      using rem True by (simp add: removeCaptured_def Let_def)
    show ?thesis
    proof (cases "\<exists>x \<in> set (traversedCells (board g) from to). isEnemyOf p x")
      case False
      with rc str show ?thesis
        by (simp add: isCaptureMove_king[OF idx True])
    next
      case enemy: True
      with str obtain k where k: "1 \<le> k" "of_int k < \<bar>row to - row from\<bar>"
        and e: "isEnemyOf p (?b1 (row from + ?dR * of_int k) (col from + ?dC * of_int k))"
        and b2: "b2 = setCell ?b1 (row from + ?dR * of_int k) (col from + ?dC * of_int k) Null"
        by auto
      have ne: "row from + ?dR * of_int k \<noteq> row from"
        using k(1) dirOf_cases[of "row to - row from"] by auto
      with e have e': "isEnemyOf p (board g (row from + ?dR * of_int k)
                                            (col from + ?dC * of_int k))"
        by (simp add: setCell_apply)
      with dest have nt: "\<not> (row from + ?dR * of_int k = row to \<and>
                             col from + ?dC * of_int k = col to)"
        by auto
      from traversed_index[OF idx k] diag
      have "isIndex (row from + ?dR * of_int k)" "isIndex (col from + ?dC * of_int k)"
        by simp_all
      with ne nt e' b2 have "\<exists>r c. isIndex r \<and> isIndex c \<and> \<not> (r = row from \<and> c = col from) \<and>
                  \<not> (r = row to \<and> c = col to) \<and> isEnemyOf p (board g r c) \<and>
                  b2 = setCell ?b1 r c Null"
        by blast
      with rc enemy show ?thesis
        by (simp add: isCaptureMove_king[OF idx True])
    qed
  next
    case False
    note man = valid[unfolded isValidMove_man_iff[OF wf pre p False]]
    show ?thesis
    proof (cases "\<bar>row to - row from\<bar> = 2 \<and> \<bar>col to - col from\<bar> = 2")
      case nj: False
      then have nj': "(\<bar>row to - row from\<bar> = 2 \<and> \<bar>col to - col from\<bar> = 2) = False"
        by simp
      from False show ?thesis
        by (simp add: removeCaptured_def Let_def isCaptureMove_man nj')
    next
      case True
      let ?mr = "row from + (row to - row from) / 2"
      let ?mc = "col from + (col to - col from) / 2"
      from True idx have mid: "isIndex ?mr" "isIndex ?mc"
        by (simp_all add: mid_index)
      from True have "\<bar>row to - row from\<bar> \<noteq> 1" by simp
      with man have e: "isEnemyOf p (board g ?mr ?mc)" by blast
      from True mid_cases[of "row to" "row from"] have "?mr \<noteq> row from" by auto
      moreover from e dest have "\<not> (?mr = row to \<and> ?mc = col to)" by auto
      ultimately have "\<exists>r c. isIndex r \<and> isIndex c \<and> \<not> (r = row from \<and> c = col from) \<and>
                  \<not> (r = row to \<and> c = col to) \<and> isEnemyOf p (board g r c) \<and>
                  setCell ?b1 ?mr ?mc Null = setCell ?b1 r c Null"
        using mid e by blast
      moreover have "removeCaptured ?b1 p from to = Inr (setCell ?b1 ?mr ?mc Null, True)"
        using True False mid by (simp add: removeCaptured_def Let_def)
      ultimately show ?thesis
        using True False by (simp add: isCaptureMove_man)
    qed
  qed
qed

lemma placeAndContinue_index:
  assumes idx: "isIndex (row to)"
    and h: "hasCaptureFrom (g\<lparr>board := setCell b2 (row to) (col to)
              (Piece (promoted p (row to)))\<rparr>) (row to) (col to) = Inr further"
  shows "placeAndContinue g b2 p to cap =
     Inr (if cap \<and> further
          then g\<lparr>board := setCell b2 (row to) (col to) (Piece (promoted p (row to))),
                 mustContinueFrom := Some to\<rparr>
          else g\<lparr>board := setCell b2 (row to) (col to) (Piece (promoted p (row to))),
                 mustContinueFrom := None,
                 currentPlayer := otherColour (currentPlayer g)\<rparr>)"
proof -
  have to: "\<lparr>row = row to, col = col to\<rparr> = to" by simp
  have oc: "(if currentPlayer g = White then Black else White) = otherColour (currentPlayer g)"
    by (cases "currentPlayer g") (simp_all add: otherColour_def)
  let ?B = "setCell b2 (row to) (col to) (Piece (promoted p (row to)))"
  have b5: "bindE (wr b2 (row to) (col to) (Piece p)) (\<lambda>b3.
      bindE (if p = Man White \<and> row to = 0 then wr b3 (row to) (col to) (Piece (King White))
             else Inr b3) (\<lambda>b4.
      bindE (if p = Man Black \<and> row to = 7 then wr b4 (row to) (col to) (Piece (King Black))
             else Inr b4) k)) = k ?B" for k :: "board \<Rightarrow> error + game"
  proof -
    consider "p = Man White \<and> row to = 0" | "p = Man Black \<and> row to = 7"
      | "\<not> (p = Man White \<and> row to = 0) \<and> \<not> (p = Man Black \<and> row to = 7)" by blast
    then show ?thesis
      by cases (auto simp: idx promoted_def)
  qed
  show ?thesis
    unfolding placeAndContinue_def Let_def to oc b5
    using h by (cases cap; cases further) simp_all
qed

text \<open>The game after an accepted move.\<close>

lemma applyMove_valid:
  assumes wf: "wf_board (board g)" and valid: "isValidMove g from to c = Inr True"
    and p: "board g (row from) (col from) = Piece p"
  shows "\<exists>b2 cap further b'.
      isCaptureMove (board g) p from to = Inr cap \<and>
      (if cap
       then \<exists>r c. isIndex r \<and> isIndex c \<and> \<not> (r = row from \<and> c = col from) \<and>
              \<not> (r = row to \<and> c = col to) \<and> isEnemyOf p (board g r c) \<and>
              b2 = setCell (setCell (board g) (row from) (col from) Null) r c Null
       else b2 = setCell (board g) (row from) (col from) Null) \<and>
      b' = setCell b2 (row to) (col to) (Piece (promoted p (row to))) \<and>
      wf_board b' \<and>
      hasCaptureFrom (g\<lparr>board := b'\<rparr>) (row to) (col to) = Inr further \<and>
      applyMove g from to =
        Inr (if cap \<and> further
             then g\<lparr>board := b', mustContinueFrom := Some to\<rparr>
             else g\<lparr>board := b', mustContinueFrom := None,
                    currentPlayer := otherColour (currentPlayer g)\<rparr>)"
proof -
  note idx = isValidMove_TrueD(2-5)[OF wf valid]
  from removeCaptured_valid[OF wf valid p] obtain b2 cap
    where rc: "removeCaptured (setCell (board g) (row from) (col from) Null) p from to
               = Inr (b2, cap)"
      and cap: "isCaptureMove (board g) p from to = Inr cap"
      and str: "if cap
           then \<exists>r c. isIndex r \<and> isIndex c \<and> \<not> (r = row from \<and> c = col from) \<and>
                  \<not> (r = row to \<and> c = col to) \<and> isEnemyOf p (board g r c) \<and>
                  b2 = setCell (setCell (board g) (row from) (col from) Null) r c Null
           else b2 = setCell (board g) (row from) (col from) Null"
    by blast
  let ?b' = "setCell b2 (row to) (col to) (Piece (promoted p (row to)))"
  have "wf_board (setCell (board g) (row from) (col from) Null)"
    using wf idx by (simp add: wf_board_setCell)
  with str have "wf_board b2"
    by (auto simp: wf_board_setCell split: if_splits)
  then have wf': "wf_board ?b'"
    using idx by (simp add: wf_board_setCell)
  then have "wf_board (board (g\<lparr>board := ?b'\<rparr>))" by simp
  from hasCaptureFrom_total[OF this] obtain further
    where f: "hasCaptureFrom (g\<lparr>board := ?b'\<rparr>) (row to) (col to) = Inr further" by blast
  have "applyMove g from to = placeAndContinue g b2 p to cap"
    using idx p rc by (simp add: applyMove_def)
  also have "\<dots> = Inr (if cap \<and> further
             then g\<lparr>board := ?b', mustContinueFrom := Some to\<rparr>
             else g\<lparr>board := ?b', mustContinueFrom := None,
                    currentPlayer := otherColour (currentPlayer g)\<rparr>)"
    by (rule placeAndContinue_index[OF idx(3) f])
  finally show ?thesis
    using cap str wf' f by blast
qed

subsection \<open>Invariants of the reachable states\<close>

lemma dark_setCell_Null: "onDarkSquares b \<Longrightarrow> onDarkSquares (setCell b r c Null)"
  by (auto simp: onDarkSquares_def setCell_apply split: if_splits)

lemma dark_setCell_Piece:
  "onDarkSquares b \<Longrightarrow> isIndex r \<Longrightarrow> isIndex c \<Longrightarrow> odd \<lfloor>r + c\<rfloor> \<Longrightarrow>
   onDarkSquares (setCell b r c (Piece q))"
  by (auto simp: onDarkSquares_def setCell_apply split: if_splits)

lemma dark_emptyBoard: "onDarkSquares emptyBoard"
  by (simp add: onDarkSquares_def emptyBoard_def)

lemma dark_placeRows:
  assumes "onDarkSquares b" and "\<forall>r \<in> set rs. 0 \<le> r \<and> r < 8"
  shows "onDarkSquares (placeRows p rs b)"
proof -
  have inner: "onDarkSquares (foldl (\<lambda>b' c. if (r + c) mod 2 = 1
                 then setCell b' (of_int r) (of_int c) (Piece p) else b') b' cs)"
    if "onDarkSquares b'" "0 \<le> r \<and> r < 8" "\<forall>c \<in> set cs. 0 \<le> c \<and> c < 8" for b' r cs
    using that
  proof (induction cs arbitrary: b')
    case Nil
    then show ?case by simp
  next
    case (Cons c cs)
    have "odd \<lfloor>rat_of_int r + rat_of_int c\<rfloor>" if "(r + c) mod 2 = 1"
    proof -
      have "\<lfloor>rat_of_int r + rat_of_int c\<rfloor> = r + c"
        by (simp flip: of_int_add)
      moreover from that have "odd (r + c)" by presburger
      ultimately show ?thesis by simp
    qed
    with Cons show ?case
      by (auto intro!: Cons.IH dark_setCell_Piece)
  qed
  show ?thesis
    unfolding placeRows_def using assms
    by (induction rs arbitrary: b) (simp_all add: inner)
qed

lemma dark_createInitialBoard: "onDarkSquares createInitialBoard"
  unfolding createInitialBoard_def
  by (intro dark_placeRows dark_emptyBoard) auto

lemma diagonal_parity:
  assumes "isIndex fr" "isIndex fc" "isIndex tr" "isIndex tc"
    and "\<bar>tr - fr\<bar> = \<bar>tc - fc\<bar>" and "odd \<lfloor>fr + fc\<rfloor>"
  shows "odd \<lfloor>tr + tc\<rfloor>"
proof -
  from assms(1-4) obtain i j k l
    where eq: "fr = of_int i" "fc = of_int j" "tr = of_int k" "tc = of_int l"
    by (auto simp: isIndex_iff)
  from assms(5) have "\<bar>k - i\<bar> = \<bar>l - j\<bar>"
    unfolding eq by (simp flip: of_int_diff of_int_abs)
  then have "even ((k + l) - (i + j))"
    by (auto simp: abs_if split: if_splits) presburger+
  moreover from assms(6) have "odd (i + j)"
    unfolding eq by (simp flip: of_int_add)
  ultimately have "odd (k + l)" by presburger
  then show ?thesis
    unfolding eq by (simp flip: of_int_add)
qed

lemma valid_diagonal:
  assumes wf: "wf_board (board g)" and valid: "isValidMove g from to c = Inr True"
  shows "\<bar>row to - row from\<bar> = \<bar>col to - col from\<bar>"
proof -
  note pre = isValidMove_TrueD(1)[OF wf valid]
  from isValidMove_TrueD(7)[OF wf valid] obtain p
    where p: "board g (row from) (col from) = Piece p" by blast
  show ?thesis
  proof (cases "isKing p")
    case True
    from valid show ?thesis
      unfolding isValidMove_king_iff[OF wf pre p True] by simp
  next
    case False
    from valid show ?thesis
      unfolding isValidMove_man_iff[OF wf pre p False] by auto
  qed
qed

lemma applyMove_invariants:
  assumes wf: "wf_board (board g)" and dark: "onDarkSquares (board g)"
    and valid: "isValidMove g from to c = Inr True" and app: "applyMove g from to = Inr g'"
  shows "wf_board (board g') \<and> onDarkSquares (board g')"
proof -
  note idx = isValidMove_TrueD(2-5)[OF wf valid]
  from isValidMove_TrueD(7)[OF wf valid] obtain p
    where p: "board g (row from) (col from) = Piece p" by blast
  with dark have "odd \<lfloor>row from + col from\<rfloor>"
    by (auto simp: onDarkSquares_def)
  from diagonal_parity[OF idx(1,2,3,4) valid_diagonal[OF wf valid] this]
  have odd: "odd \<lfloor>row to + col to\<rfloor>" .
  from applyMove_valid[OF wf valid p] app obtain b2 cap further
    where str: "if cap
       then \<exists>r c. isIndex r \<and> isIndex c \<and> \<not> (r = row from \<and> c = col from) \<and>
              \<not> (r = row to \<and> c = col to) \<and> isEnemyOf p (board g r c) \<and>
              b2 = setCell (setCell (board g) (row from) (col from) Null) r c Null
       else b2 = setCell (board g) (row from) (col from) Null"
      and wf': "wf_board (setCell b2 (row to) (col to) (Piece (promoted p (row to))))"
      and g': "g' = (if cap \<and> further
             then g\<lparr>board := setCell b2 (row to) (col to) (Piece (promoted p (row to))),
                    mustContinueFrom := Some to\<rparr>
             else g\<lparr>board := setCell b2 (row to) (col to) (Piece (promoted p (row to))),
                    mustContinueFrom := None,
                    currentPlayer := otherColour (currentPlayer g)\<rparr>)"
    by auto
  from g' have b': "board g' = setCell b2 (row to) (col to) (Piece (promoted p (row to)))"
    by (simp split: if_splits)
  from str dark have "onDarkSquares b2"
    by (auto simp: dark_setCell_Null split: if_splits)
  with idx odd have "onDarkSquares (board g')"
    unfolding b' by (simp add: dark_setCell_Piece)
  with wf' b' show ?thesis by simp
qed

lemma reachable_invariants:
  "reachable g \<Longrightarrow> wf_board (board g) \<and> onDarkSquares (board g)"
proof (induction rule: reachable.induct)
  case fresh
  show ?case
    by (simp add: createNewGame_def wf_createInitialBoard dark_createInitialBoard)
next
  case (join g)
  then show ?case by simp
next
  case (move g "from" to playerColor g')
  then show ?case
    using applyMove_invariants by blast
qed

lemma placeAndContinue_fields:
  assumes "placeAndContinue g b2 p to cap = Inr g'"
  shows "winner g' = winner g \<and> status g' = status g"
  using assms
  by (auto simp: placeAndContinue_def Let_def bindE_eq_Inr split: if_splits)

lemma applyMove_fields:
  assumes "applyMove g from to = Inr g'"
  shows "winner g' = winner g \<and> status g' = status g"
proof (cases "rd (board g) (row from) (col from)")
  case (Inl e)
  with assms show ?thesis by (simp add: applyMove_def)
next
  case (Inr x)
  show ?thesis
  proof (cases x)
    case (Piece q)
    with Inr assms obtain a b where "placeAndContinue g a q to b = Inr g'"
      by (auto simp: applyMove_def bindE_eq_Inr)
    then show ?thesis by (rule placeAndContinue_fields)
  qed (use Inr assms in \<open>auto simp: applyMove_def bindE_eq_Inr\<close>)
qed

lemma reachable_fields: "reachable g \<Longrightarrow> winner g = None \<and> status g \<noteq> Finished"
proof (induction rule: reachable.induct)
  case fresh
  show ?case by (simp add: createNewGame_def)
next
  case (join g)
  then show ?case by simp
next
  case (move g "from" to playerColor g')
  with applyMove_fields[OF move.hyps(3)] show ?case by simp
qed

lemma otherColour_neq [simp]: "otherColour k \<noteq> k" "k \<noteq> otherColour k"
  by (cases k; simp add: otherColour_def)+


subsection \<open>The outcome of a rejected request\<close>

lemma rdOpt_wf:
  assumes "wf_board b"
  shows "rdOpt b r c = b r c"
proof (cases "isIndex r")
  case True
  then show ?thesis by simp
next
  case False
  with assms have "b r c = Undefined" by (simp add: wf_board_def)
  with False show ?thesis by (simp add: rdOpt_def)
qed

lemma hasEnemyInPath_wf:
  assumes wf: "wf_board b"
  shows "hasEnemyInPath b p fr fc dirR dirC d absDr =
         (\<exists>x \<in> set (lineCells b fr fc dirR dirC d absDr). isEnemyOf p x)"
proof (induction "nat (\<lceil>absDr\<rceil> - d)" arbitrary: d rule: less_induct)
  case less
  show ?case
  proof (cases "of_int d < absDr")
    case False
    then show ?thesis
      by (subst hasEnemyInPath.simps) (simp add: lineCells_done)
  next
    case True
    have IH: "hasEnemyInPath b p fr fc dirR dirC (d + 1) absDr =
         (\<exists>x \<in> set (lineCells b fr fc dirR dirC (d + 1) absDr). isEnemyOf p x)"
      by (intro less.hyps scan_measure True)
    show ?thesis
      by (subst hasEnemyInPath.simps)
         (simp add: True IH lineCells_step rdOpt_wf[OF wf] split: cell.split)
  qed
qed

lemma isSimpleMoveAttempt_shape:
  assumes wf: "wf_board (board g)"
    and p: "rdOpt (board g) (row from) (col from) = Piece p" and own: "toLowerCase p = c"
  shows "isSimpleMoveAttempt (board g) p from to = simpleMoveAttempt g from to c"
proof -
  have strict: "(\<bar>row to - row from\<bar> = \<bar>col to - col from\<bar> \<and> 0 < \<bar>row to - row from\<bar>) =
                (\<bar>row to - row from\<bar> = \<bar>col to - col from\<bar> \<and> row to \<noteq> row from)"
    by auto
  show ?thesis
  proof (cases "isKing p")
    case True
    show ?thesis
    proof (cases "\<bar>row to - row from\<bar> = \<bar>col to - col from\<bar> \<and> 0 < \<bar>row to - row from\<bar>")
      case diag: True
      then have "\<bar>row to - row from\<bar> = \<bar>col to - col from\<bar> \<and> row to \<noteq> row from"
        using strict by blast
      with diag True show ?thesis
        by (auto simp: isSimpleMoveAttempt_def simpleMoveAttempt_def Let_def p own
              hasEnemyInPath_wf[OF wf] traversedCells_def)
    next
      case nd: False
      then have "\<not> (\<bar>row to - row from\<bar> = \<bar>col to - col from\<bar> \<and> row to \<noteq> row from)"
        using strict by blast
      with nd True show ?thesis
        by (auto simp: isSimpleMoveAttempt_def simpleMoveAttempt_def Let_def p own)
    qed
  next
    case False
    then show ?thesis
      by (auto simp: isSimpleMoveAttempt_def simpleMoveAttempt_def Let_def p own)
  qed
qed

lemma makeMove_rejected:
  assumes wf: "wf_board (board g)" and rej: "isValidMove g from to c = Inr False"
  shows "(makeMove g from to c = Inr MustCapture) =
         (simpleMoveAttempt g from to c \<and> playerHasAnyCapture g c = Inr True)"
proof -
  from playerHasAnyCapture_total[OF wf] obtain a
    where a: "playerHasAnyCapture g c = Inr a" by blast
  show ?thesis
  proof (cases "rdOpt (board g) (row from) (col from)")
    case (Piece p)
    show ?thesis
    proof (cases "toLowerCase p = c")
      case True
      show ?thesis
        using isSimpleMoveAttempt_shape[OF wf Piece True, of to]
        by (simp add: makeMove_def rej Piece True a)
    next
      case False
      then show ?thesis
        by (simp add: makeMove_def rej Piece simpleMoveAttempt_def)
    qed
  qed (simp_all add: makeMove_def rej simpleMoveAttempt_def)
qed

lemma legalSimpleMove_attempt:
  assumes wf: "wf_board (board g)" and legal: "legalSimpleMove g from to c"
  shows "simpleMoveAttempt g from to c"
proof -
  from legal have pre: "preconditions g from to c"
    by (simp add: legalSimpleMove_def)
  note idx = preconditions_index(1-4)[OF wf pre]
  from preconditions_index(5,6)[OF wf pre] obtain p
    where p: "board g (row from) (col from) = Piece p" "toLowerCase p = c"
      and dest: "board g (row to) (col to) = Null" by blast
  from p idx have pc: "rdOpt (board g) (row from) (col from) = Piece p" by simp
  show ?thesis
  proof (cases "isKing p")
    case True
    with legal pc have shape: "\<bar>row to - row from\<bar> = \<bar>col to - col from\<bar>"
      "row to \<noteq> row from" "\<forall>x \<in> set (traversedCells (board g) from to). x = Null"
      by (simp_all add: legalSimpleMove_def)
    from shape(3) have "\<forall>x \<in> set (traversedCells (board g) from to). \<not> isEnemyOf p x"
      by (metis isEnemyOf_simps(1))
    with shape(1,2) True pc p dest idx show ?thesis
      by (simp add: simpleMoveAttempt_def)
  next
    case False
    with legal pc p dest idx show ?thesis
      by (simp add: legalSimpleMove_def simpleMoveAttempt_def)
  qed
qed

text \<open>
  A legal-shaped simple move is accepted when no capture is available and rejected
  when one is: the mandatory capture is then the only reason of the rejection.
\<close>

lemma legalSimpleMove_valid_iff:
  assumes wf: "wf_board (board g)" and legal: "legalSimpleMove g from to c"
  shows "isValidMove g from to c = Inr (playerHasAnyCapture g c = Inr False)"
proof -
  from legal have pre: "preconditions g from to c" and mcf: "mustContinueFrom g = None"
    by (simp_all add: legalSimpleMove_def)
  note idx = preconditions_index(1-4)[OF wf pre]
  from preconditions_index(6)[OF wf pre] obtain p
    where p: "board g (row from) (col from) = Piece p" by blast
  with idx have pc: "rdOpt (board g) (row from) (col from) = Piece p" by simp
  from isValidMove_total[OF wf isIndexD(1)[OF idx(3)]] obtain v
    where v: "isValidMove g from to c = Inr v" by blast
  have "v = (playerHasAnyCapture g c = Inr False)"
  proof (cases "isKing p")
    case True
    from legal pc True have shape: "\<bar>row to - row from\<bar> = \<bar>col to - col from\<bar>"
      "row to \<noteq> row from" "\<forall>x \<in> set (traversedCells (board g) from to). x = Null"
      by (simp_all add: legalSimpleMove_def)
    from shape(3) have empty: "filter (\<lambda>x. x \<noteq> Null) (traversedCells (board g) from to) = []"
      by (simp add: filter_empty_conv)
    have "1 \<le> \<bar>row to - row from\<bar>"
    proof -
      from idx(1,3) obtain i j where "row from = of_int i" "row to = of_int j"
        by (auto simp: isIndex_iff)
      with shape(2) show ?thesis by (auto simp: abs_if)
    qed
    with shape(1) empty mcf have "(isValidMove g from to c = Inr True) =
        (playerHasAnyCapture g c = Inr False)"
      unfolding isValidMove_king_iff[OF wf pre p True] by simp
    with v show ?thesis by simp
  next
    case False
    from legal pc False have shape: "\<bar>row to - row from\<bar> = 1" "\<bar>col to - col from\<bar> = 1"
      "if c = White then row to < row from else row from < row to"
      by (simp_all add: legalSimpleMove_def)
    with mcf have "(isValidMove g from to c = Inr True) =
        (playerHasAnyCapture g c = Inr False)"
      unfolding isValidMove_man_iff[OF wf pre p False] by simp
    with v show ?thesis by simp
  qed
  with v show ?thesis by simp
qed

text \<open>A rejected request never updates the game.\<close>

lemma makeMove_rejected_outcome:
  assumes wf: "wf_board (board g)" and rej: "isValidMove g from to c = Inr False"
  shows "makeMove g from to c = Inr MustCapture \<or> makeMove g from to c = Inr InvalidMove"
proof -
  from playerHasAnyCapture_total[OF wf] obtain a
    where a: "playerHasAnyCapture g c = Inr a" by blast
  show ?thesis
    by (cases "rdOpt (board g) (row from) (col from)")
       (simp_all add: makeMove_def rej a)
qed


subsection \<open>The classification of an accepted move\<close>


section \<open>The claims\<close>

text \<open>
  C1. Where \<^verbatim>\<open>playerHasAnyCapture\<close> holds for the current player, \<^verbatim>\<open>isValidMove\<close>
  accepts no move of that player that is not classified as a capture, whatever its
  shape, and returns false for it when the destination has integer coordinates.
\<close>

theorem forced_capture:
  assumes wf: "wf_board (board g)"
    and cap: "playerHasAnyCapture g (currentPlayer g) = Inr True"
    and simple: "\<not> captureMove g from to"
  shows "isValidMove g from to (currentPlayer g) \<noteq> Inr True \<and>
         (isPosition to \<longrightarrow> isValidMove g from to (currentPlayer g) = Inr False)"
proof -
  have rejected: "isValidMove g from to (currentPlayer g) \<noteq> Inr True"
  proof
    assume valid: "isValidMove g from to (currentPlayer g) = Inr True"
    note pre = isValidMove_TrueD(1)[OF wf valid]
    note idx = isValidMove_TrueD(2-5)[OF wf valid]
    note dest = isValidMove_TrueD(6)[OF wf valid]
    from isValidMove_TrueD(7)[OF wf valid] obtain p
      where p: "board g (row from) (col from) = Piece p" by blast
    with idx have pc: "rdOpt (board g) (row from) (col from) = Piece p" by simp
    show False
    proof (cases "isKing p")
      case True
      show False
      proof (cases "\<exists>x \<in> set (traversedCells (board g) from to). isEnemyOf p x")
        case enemy: True
        with valid have "kingCaptureLine (board g) p from to"
          using king_capture_iff[OF wf pre p True] isCaptureMove_king[OF idx True] by simp
        with simple pc True dest idx show False
          by (simp add: captureMove_def)
      next
        case False
        with valid cap show False
          by (simp add: isValidMove_pre_king[OF pre pc True] isCaptureMove_king[OF idx True])
      qed
    next
      case False
      from valid cap have "manCaptureJump (board g) p from to"
        unfolding isValidMove_man_iff[OF wf pre p False] manCaptureJump_def
        using idx by (auto simp: mid_index)
      with simple pc False show False
        by (simp add: captureMove_def)
    qed
  qed
  moreover have "isValidMove g from to (currentPlayer g) = Inr False" if "isPosition to"
  proof -
    from that have "isInteger (row to)" by (simp add: isPosition_def)
    from isValidMove_total[OF wf this] obtain v
      where "isValidMove g from to (currentPlayer g) = Inr v" by blast
    with rejected show ?thesis by (cases v) simp_all
  qed
  ultimately show ?thesis by blast
qed

theorem forced_capture_witness:
  "playerHasAnyCapture forcedGame (currentPlayer forcedGame) = Inr True \<and>
   \<not> captureMove forcedGame \<lparr>row = 6, col = 1\<rparr> \<lparr>row = 5, col = 2\<rparr> \<and>
   isPosition \<lparr>row = 5, col = 2\<rparr> \<and>
   isValidMove forcedGame \<lparr>row = 6, col = 1\<rparr> \<lparr>row = 5, col = 2\<rparr> (currentPlayer forcedGame)
     = Inr False"
proof -
  have wf: "wf_board (board forcedGame)"
    unfolding forcedGame_def by (rule wf_gameOf) simp
  have int: "isPosition \<lparr>row = 5, col = 2\<rparr>"
    by (simp add: isPosition_def)
  have cap: "playerHasAnyCapture forcedGame (currentPlayer forcedGame) = Inr True"
    by code_simp
  have simple: "\<not> captureMove forcedGame \<lparr>row = 6, col = 1\<rparr> \<lparr>row = 5, col = 2\<rparr>"
    by code_simp
  from forced_capture[OF wf cap simple] int cap simple show ?thesis
    by blast
qed

text \<open>
  C2. Under the preconditions of the legality check, a king's move is a legal capture
  exactly when it is strictly diagonal and the traversed squares hold exactly one
  enemy piece, no own piece, and are otherwise empty: any distance to the enemy and
  any empty landing square beyond it, never two enemy pieces, never an own piece. In
  scenario C the move (4,4) to (1,1) is legal and (4,4) to (0,0) is not.
\<close>

theorem king_capture_rule:
  assumes wf: "wf_board (board g)" and pre: "preconditions g from to c"
    and p: "board g (row from) (col from) = Piece p" and k: "isKing p"
  shows "((isValidMove g from to c = Inr True \<and> isCaptureMove (board g) p from to = Inr True) =
          kingCaptureLine (board g) p from to) \<and>
         isValidMove scenarioC \<lparr>row = 4, col = 4\<rparr> \<lparr>row = 1, col = 1\<rparr> White = Inr True \<and>
         isValidMove scenarioC \<lparr>row = 4, col = 4\<rparr> \<lparr>row = 0, col = 0\<rparr> White = Inr False"
proof -
  have "isValidMove scenarioC \<lparr>row = 4, col = 4\<rparr> \<lparr>row = 1, col = 1\<rparr> White = Inr True"
    by code_simp
  moreover
  have "isValidMove scenarioC \<lparr>row = 4, col = 4\<rparr> \<lparr>row = 0, col = 0\<rparr> White = Inr False"
    by code_simp
  ultimately show ?thesis
    using king_capture_iff[OF wf pre p k] by simp
qed

theorem king_capture_rule_witness:
  "preconditions scenarioC \<lparr>row = 4, col = 4\<rparr> \<lparr>row = 1, col = 1\<rparr> White \<and>
   isValidMove scenarioC \<lparr>row = 4, col = 4\<rparr> \<lparr>row = 1, col = 1\<rparr> White = Inr True \<and>
   kingCaptureLine (board scenarioC) (King White) \<lparr>row = 4, col = 4\<rparr> \<lparr>row = 1, col = 1\<rparr>"
proof -
  have wf: "wf_board (board scenarioC)"
    unfolding scenarioC_def by (rule wf_gameOf) simp
  have pre: "preconditions scenarioC \<lparr>row = 4, col = 4\<rparr> \<lparr>row = 1, col = 1\<rparr> White"
    by code_simp
  have p: "board scenarioC (row \<lparr>row = 4, col = 4\<rparr>) (col \<lparr>row = 4, col = 4\<rparr>)
           = Piece (King White)"
    by code_simp
  have k: "isKing (King White)"
    by (simp add: isKing_def)
  have c: "isCaptureMove (board scenarioC) (King White) \<lparr>row = 4, col = 4\<rparr> \<lparr>row = 1, col = 1\<rparr>
           = Inr True"
    by code_simp
  from king_capture_rule[OF wf pre p k] pre c show ?thesis
    by blast
qed



text \<open>
  C4. While \<^verbatim>\<open>mustContinueFrom\<close> is set to a square, \<^verbatim>\<open>isValidMove\<close> returns false for
  every move whose origin is another square, whatever the colour, the destination and
  the rest of the state.
\<close>

theorem chain_enforcement:
  assumes "mustContinueFrom g = Some m" and "from \<noteq> m"
  shows "isValidMove g from to playerColor = Inr False"
proof -
  from assms(2) have "row m \<noteq> row from \<or> col m \<noteq> col from"
    by (cases m, cases "from") auto
  with assms(1) show ?thesis
    by (rule isValidMove_chain)
qed

theorem chain_enforcement_witness:
  "mustContinueFrom chainGame = Some \<lparr>row = 3, col = 4\<rparr> \<and>
   \<lparr>row = 5, col = 6\<rparr> \<noteq> \<lparr>row = 3, col = 4\<rparr> \<and>
   isValidMove chainGame \<lparr>row = 5, col = 6\<rparr> \<lparr>row = 4, col = 5\<rparr> White = Inr False"
proof -
  have h1: "mustContinueFrom chainGame = Some \<lparr>row = 3, col = 4\<rparr>"
    by (simp add: chainGame_def gameOf_def)
  have h2: "\<lparr>row = 5, col = 6\<rparr> \<noteq> \<lparr>row = 3, col = (4::rat)\<rparr>"
    by simp
  from chain_enforcement[OF h1 h2] h1 h2 show ?thesis
    by simp
qed

text \<open>
  C5. \<^verbatim>\<open>isValidMove\<close> does not resolve every input to a legality decision: for the
  destination row 4.5 the bounds check passes, \<^verbatim>\<open>board[4.5]\<close> is \<^verbatim>\<open>undefined\<close>, and
  \<^verbatim>\<open>board[tr][tc]\<close> raises a TypeError. (For a destination with an integer row the
  result is a boolean on every well-formed board, lemma \<open>isValidMove_total\<close>, and a
  rejected request never updates the game, lemma \<open>makeMove_rejected_outcome\<close>.)
\<close>

theorem isValidMove_fractional_row_raises:
  "isValidMove playingGame \<lparr>row = 5, col = 0\<rparr> \<lparr>row = 9 / 2, col = 1\<rparr> White = Inl TypeError"
  by code_simp

theorem isValidMove_fractional_row_raises_witness:
  "isValidMove playingGame \<lparr>row = 5, col = 0\<rparr> \<lparr>row = 9 / 2, col = 1\<rparr> White \<noteq> Inr True \<and>
   isValidMove playingGame \<lparr>row = 5, col = 0\<rparr> \<lparr>row = 9 / 2, col = 1\<rparr> White \<noteq> Inr False"
  using isValidMove_fractional_row_raises by simp

text \<open>
  C6 as stated fails on the code. The handler reports \<^verbatim>\<open>mustCapture\<close> for a man's
  backward step, for a request of the player who is not to move, and for a king's line
  through an own piece, none of which is a legal-shaped simple move rejected solely
  for the mandatory capture.
\<close>

theorem must_capture_counterexample:
  "\<not> ((makeMove forcedGame \<lparr>row = 6, col = 1\<rparr> \<lparr>row = 7, col = 0\<rparr> White = Inr MustCapture) =
       rejectedSolelyForCapture forcedGame \<lparr>row = 6, col = 1\<rparr> \<lparr>row = 7, col = 0\<rparr> White) \<and>
   isValidMove forcedGame \<lparr>row = 6, col = 1\<rparr> \<lparr>row = 7, col = 0\<rparr> White = Inr False \<and>
   \<not> ((makeMove forcedGame \<lparr>row = 3, col = 2\<rparr> \<lparr>row = 4, col = 1\<rparr> Black = Inr MustCapture) =
       rejectedSolelyForCapture forcedGame \<lparr>row = 3, col = 2\<rparr> \<lparr>row = 4, col = 1\<rparr> Black) \<and>
   isValidMove forcedGame \<lparr>row = 3, col = 2\<rparr> \<lparr>row = 4, col = 1\<rparr> Black = Inr False \<and>
   \<not> ((makeMove blockedKingGame \<lparr>row = 7, col = 0\<rparr> \<lparr>row = 5, col = 2\<rparr> White = Inr MustCapture) =
       rejectedSolelyForCapture blockedKingGame \<lparr>row = 7, col = 0\<rparr> \<lparr>row = 5, col = 2\<rparr> White) \<and>
   isValidMove blockedKingGame \<lparr>row = 7, col = 0\<rparr> \<lparr>row = 5, col = 2\<rparr> White = Inr False"
proof -
  have m1: "case makeMove forcedGame \<lparr>row = 6, col = 1\<rparr> \<lparr>row = 7, col = 0\<rparr> White of
              Inr MustCapture \<Rightarrow> True | _ \<Rightarrow> False"
    by code_simp
  have r1: "\<not> rejectedSolelyForCapture forcedGame \<lparr>row = 6, col = 1\<rparr> \<lparr>row = 7, col = 0\<rparr> White"
    by code_simp
  have v1: "isValidMove forcedGame \<lparr>row = 6, col = 1\<rparr> \<lparr>row = 7, col = 0\<rparr> White = Inr False"
    by code_simp
  have m2: "case makeMove forcedGame \<lparr>row = 3, col = 2\<rparr> \<lparr>row = 4, col = 1\<rparr> Black of
              Inr MustCapture \<Rightarrow> True | _ \<Rightarrow> False"
    by code_simp
  have r2: "\<not> rejectedSolelyForCapture forcedGame \<lparr>row = 3, col = 2\<rparr> \<lparr>row = 4, col = 1\<rparr> Black"
    by code_simp
  have v2: "isValidMove forcedGame \<lparr>row = 3, col = 2\<rparr> \<lparr>row = 4, col = 1\<rparr> Black = Inr False"
    by code_simp
  have m3: "case makeMove blockedKingGame \<lparr>row = 7, col = 0\<rparr> \<lparr>row = 5, col = 2\<rparr> White of
              Inr MustCapture \<Rightarrow> True | _ \<Rightarrow> False"
    by code_simp
  have r3: "\<not> rejectedSolelyForCapture blockedKingGame \<lparr>row = 7, col = 0\<rparr> \<lparr>row = 5, col = 2\<rparr>
              White"
    by code_simp
  have v3: "isValidMove blockedKingGame \<lparr>row = 7, col = 0\<rparr> \<lparr>row = 5, col = 2\<rparr> White
            = Inr False"
    by code_simp
  from m1 have "makeMove forcedGame \<lparr>row = 6, col = 1\<rparr> \<lparr>row = 7, col = 0\<rparr> White
                = Inr MustCapture"
    by (auto split: sum.splits outcome.splits)
  moreover from m2 have "makeMove forcedGame \<lparr>row = 3, col = 2\<rparr> \<lparr>row = 4, col = 1\<rparr> Black
                = Inr MustCapture"
    by (auto split: sum.splits outcome.splits)
  moreover from m3 have "makeMove blockedKingGame \<lparr>row = 7, col = 0\<rparr> \<lparr>row = 5, col = 2\<rparr> White
                = Inr MustCapture"
    by (auto split: sum.splits outcome.splits)
  ultimately show ?thesis
    using r1 r2 r3 v1 v2 v3 by simp
qed

text \<open>
  C6 as amended. For every rejected request on a well-formed board the handler
  reports \<^verbatim>\<open>mustCapture\<close> exactly when the origin holds a piece of the requesting
  player, the destination is empty, the shape is a man's single diagonal step in either
  direction or a king's diagonal line with no enemy piece on the way, and
  \<^verbatim>\<open>playerHasAnyCapture\<close> holds for that player. Every legal-shaped simple move rejected
  solely for the mandatory capture is such a request.
\<close>

theorem must_capture_outcome:
  assumes wf: "wf_board (board g)" and rej: "isValidMove g from to c = Inr False"
  shows "((makeMove g from to c = Inr MustCapture) =
          (simpleMoveAttempt g from to c \<and> playerHasAnyCapture g c = Inr True)) \<and>
         (rejectedSolelyForCapture g from to c \<longrightarrow> makeMove g from to c = Inr MustCapture)"
  using makeMove_rejected[OF wf rej] legalSimpleMove_attempt[OF wf]
  by (auto simp: rejectedSolelyForCapture_def)

theorem must_capture_outcome_witness:
  "isValidMove forcedGame \<lparr>row = 6, col = 1\<rparr> \<lparr>row = 5, col = 2\<rparr> White = Inr False \<and>
   rejectedSolelyForCapture forcedGame \<lparr>row = 6, col = 1\<rparr> \<lparr>row = 5, col = 2\<rparr> White \<and>
   makeMove forcedGame \<lparr>row = 6, col = 1\<rparr> \<lparr>row = 5, col = 2\<rparr> White = Inr MustCapture"
proof -
  have wf: "wf_board (board forcedGame)"
    unfolding forcedGame_def by (rule wf_gameOf) simp
  have rej: "isValidMove forcedGame \<lparr>row = 6, col = 1\<rparr> \<lparr>row = 5, col = 2\<rparr> White = Inr False"
    by code_simp
  have sole: "rejectedSolelyForCapture forcedGame \<lparr>row = 6, col = 1\<rparr> \<lparr>row = 5, col = 2\<rparr> White"
    by code_simp
  from must_capture_outcome[OF wf rej] rej sole show ?thesis
    by blast
qed

text \<open>
  C7. After an accepted move the landing square holds the moved piece, promoted to a
  king when it is a white man landing on row 0 or a black man landing on row 7, in the
  same call and by the landing row only; a king that moves stays a king, and a square
  that held a king holds that king or is empty afterwards: no king is demoted.
\<close>

theorem promotion:
  assumes wf: "wf_board (board g)" and valid: "isValidMove g from to c = Inr True"
    and p: "board g (row from) (col from) = Piece p"
  shows "\<exists>g'. applyMove g from to = Inr g' \<and>
     board g' (row to) (col to) = Piece (promoted p (row to)) \<and>
     (p = Man White \<and> row to = 0 \<longrightarrow> board g' (row to) (col to) = Piece (King White)) \<and>
     (p = Man Black \<and> row to = 7 \<longrightarrow> board g' (row to) (col to) = Piece (King Black)) \<and>
     (isKing p \<longrightarrow> board g' (row to) (col to) = Piece p) \<and>
     (\<forall>r c k. board g r c = Piece (King k) \<longrightarrow>
        board g' r c = Piece (King k) \<or> board g' r c = Null)"
proof -
  note dest = isValidMove_TrueD(6)[OF wf valid]
  from applyMove_valid[OF wf valid p] obtain b2 cap further b'
    where str: "if cap
       then \<exists>r c. isIndex r \<and> isIndex c \<and> \<not> (r = row from \<and> c = col from) \<and>
              \<not> (r = row to \<and> c = col to) \<and> isEnemyOf p (board g r c) \<and>
              b2 = setCell (setCell (board g) (row from) (col from) Null) r c Null
       else b2 = setCell (board g) (row from) (col from) Null"
      and b': "b' = setCell b2 (row to) (col to) (Piece (promoted p (row to)))"
      and app: "applyMove g from to =
        Inr (if cap \<and> further
             then g\<lparr>board := b', mustContinueFrom := Some to\<rparr>
             else g\<lparr>board := b', mustContinueFrom := None,
                    currentPlayer := otherColour (currentPlayer g)\<rparr>)"
    by blast
  define g' where "g' = (if cap \<and> further
             then g\<lparr>board := b', mustContinueFrom := Some to\<rparr>
             else g\<lparr>board := b', mustContinueFrom := None,
                    currentPlayer := otherColour (currentPlayer g)\<rparr>)"
  have bg': "board g' = b'" by (simp add: g'_def)
  have land: "board g' (row to) (col to) = Piece (promoted p (row to))"
    by (simp add: bg' b' setCell_apply)
  have b2: "b2 r c = board g r c \<or> b2 r c = Null" for r c
    using str by (auto simp: setCell_apply split: if_splits)
  have keep: "board g' r c = Piece (King k) \<or> board g' r c = Null"
    if "board g r c = Piece (King k)" for r c k
  proof -
    from that dest have "\<not> (r = row to \<and> c = col to)" by auto
    then have "board g' r c = b2 r c" by (auto simp: bg' b' setCell_apply)
    with b2[of r c] that show ?thesis by auto
  qed
  have "isKing p \<Longrightarrow> promoted p (row to) = p"
    by (cases p) (auto simp: promoted_def isKing_def)
  with land keep app show ?thesis
    unfolding g'_def[symmetric] by (auto simp: promoted_def)
qed

theorem promotion_witness:
  "isValidMove promotionGame \<lparr>row = 1, col = 2\<rparr> \<lparr>row = 0, col = 1\<rparr> White = Inr True \<and>
   (\<exists>g'. applyMove promotionGame \<lparr>row = 1, col = 2\<rparr> \<lparr>row = 0, col = 1\<rparr> = Inr g' \<and>
      board g' 0 1 = Piece (King White))"
proof -
  have wf: "wf_board (board promotionGame)"
    unfolding promotionGame_def by (rule wf_gameOf) simp
  have valid: "isValidMove promotionGame \<lparr>row = 1, col = 2\<rparr> \<lparr>row = 0, col = 1\<rparr> White
               = Inr True"
    by code_simp
  have p: "board promotionGame (row \<lparr>row = 1, col = 2\<rparr>) (col \<lparr>row = 1, col = 2\<rparr>)
           = Piece (Man White)"
    by code_simp
  from promotion[OF wf valid p] valid show ?thesis
    by auto
qed

text \<open>
  C8. In every state reached from a fresh game by the second player joining and by
  moves that \<^verbatim>\<open>isValidMove\<close> accepted and \<^verbatim>\<open>applyMove\<close> applied, every occupied square
  is a square of the board with an odd coordinate sum.
\<close>

theorem dark_square_invariant:
  assumes "reachable g"
  shows "\<forall>r c p. board g r c = Piece p \<longrightarrow> isIndex r \<and> isIndex c \<and> odd \<lfloor>r + c\<rfloor>"
  using reachable_invariants[OF assms] by (simp add: onDarkSquares_def)

theorem dark_square_invariant_witness:
  "\<exists>g'. applyMove playingGame \<lparr>row = 5, col = 0\<rparr> \<lparr>row = 4, col = 1\<rparr> = Inr g' \<and>
     reachable g' \<and> board g' 4 1 = Piece (Man White) \<and> odd \<lfloor>(4::rat) + 1\<rfloor>"
proof -
  have r0: "reachable playingGame"
    unfolding playingGame_def by (intro reachable.join reachable.fresh)
  have valid: "isValidMove playingGame \<lparr>row = 5, col = 0\<rparr> \<lparr>row = 4, col = 1\<rparr> White = Inr True"
    by code_simp
  have "case applyMove playingGame \<lparr>row = 5, col = 0\<rparr> \<lparr>row = 4, col = 1\<rparr> of
          Inr g' \<Rightarrow> board g' 4 1 = Piece (Man White) | Inl e \<Rightarrow> False"
    by code_simp
  then obtain g' where app: "applyMove playingGame \<lparr>row = 5, col = 0\<rparr> \<lparr>row = 4, col = 1\<rparr> = Inr g'"
    and sq: "board g' 4 1 = Piece (Man White)"
    by (auto split: sum.splits)
  have r1: "reachable g'"
    by (rule reachable.move[OF r0 valid app])
  from dark_square_invariant[OF r1] sq app r1 show ?thesis
    by blast
qed

text \<open>
  C9. \<^verbatim>\<open>applyMove\<close> never changes \<^verbatim>\<open>winner\<close> or \<^verbatim>\<open>status\<close> (and \<^verbatim>\<open>isValidMove\<close> returns
  a result only), so that in every state reached from \<^verbatim>\<open>createNewGame\<close> the winner is
  none and the status is not finished.
\<close>

theorem winner_never_set:
  "(applyMove g from to = Inr g' \<longrightarrow> winner g' = winner g \<and> status g' = status g) \<and>
   (reachable g \<longrightarrow> winner g = None \<and> status g \<noteq> Finished)"
  using applyMove_fields reachable_fields by blast

theorem winner_never_set_witness:
  "\<exists>g'. applyMove playingGame \<lparr>row = 5, col = 0\<rparr> \<lparr>row = 4, col = 1\<rparr> = Inr g' \<and>
     reachable g' \<and> winner g' = None \<and> status g' = Playing"
proof -
  have r0: "reachable playingGame"
    unfolding playingGame_def by (intro reachable.join reachable.fresh)
  have valid: "isValidMove playingGame \<lparr>row = 5, col = 0\<rparr> \<lparr>row = 4, col = 1\<rparr> White = Inr True"
    by code_simp
  have wf: "wf_board (board playingGame)"
    using reachable_invariants[OF r0] by simp
  from isValidMove_TrueD(7)[OF wf valid] obtain p
    where "board playingGame (row \<lparr>row = 5, col = 0\<rparr>) (col \<lparr>row = 5, col = 0\<rparr>) = Piece p"
    by blast
  from applyMove_valid[OF wf valid this] obtain g'
    where app: "applyMove playingGame \<lparr>row = 5, col = 0\<rparr> \<lparr>row = 4, col = 1\<rparr> = Inr g'"
    by blast
  have r1: "reachable g'"
    by (rule reachable.move[OF r0 valid app])
  have st: "status playingGame = Playing"
    by (simp add: playingGame_def)
  from winner_never_set[of playingGame "\<lparr>row = 5, col = 0\<rparr>" "\<lparr>row = 4, col = 1\<rparr>" g']
       winner_never_set[of g'] app r1 st
  show ?thesis by auto
qed

text \<open>
  C10. Where no capture is available to the acting player and the piece on the origin
  is not a king, \<^verbatim>\<open>isValidMove\<close> of the predecessor (\<^verbatim>\<open>src/unnamed/part_000\<close>) and of
  the complete engine give the same result, for every origin, destination and colour
  (an exception of one is an exception of the other).
\<close>

theorem predecessor_subset:
  assumes noCapture: "playerHasAnyCapture g playerColor = Inr False"
      and notKing: "\<forall>k. rdOpt (board g) (row from) (col from) \<noteq> Piece (King k)"
  shows "isValidMove_part000 g from to playerColor = isValidMove g from to playerColor"
proof (cases "passesEarlyChecks g from to playerColor")
  case False
  then show ?thesis by (simp add: isValidMove_early isValidMove_part000_early)
next
  case early: True
  show ?thesis
  proof (cases "rd (board g) (row to) (col to)")
    case (Inl e)
    with early show ?thesis
      by (simp add: isValidMove_dest_error isValidMove_part000_dest_error)
  next
    case (Inr v)
    show ?thesis
    proof (cases "v = Null")
      case False
      with early Inr show ?thesis
        by (simp add: isValidMove_dest_occupied isValidMove_part000_dest_occupied)
    next
      case True
      with early Inr have pre: "preconditions g from to playerColor"
        by (simp add: preconditions_def)
      from preconditionsD(7)[OF pre] obtain p
        where pc: "rdOpt (board g) (row from) (col from) = Piece p" by auto
      with notKing have nk: "\<not> isKing p" by (cases p) (auto simp: isKing_def)
      show ?thesis
      proof (cases "\<bar>row to - row from\<bar> = 2 \<and> \<bar>col to - col from\<bar> = 2")
        case True
        then show ?thesis
          by (simp add: isValidMove_pre_man_jump[OF pre pc nk]
                isValidMove_part000_pre_man_jump[OF pre pc])
      next
        case False
        then show ?thesis
          by (simp add: isValidMove_pre_man_step[OF pre pc nk False]
                isValidMove_part000_pre_man_step[OF pre pc nk False] noCapture)
      qed
    qed
  qed
qed

theorem predecessor_subset_witness:
  "playerHasAnyCapture playingGame White = Inr False \<and>
   (\<forall>k. rdOpt (board playingGame) (row \<lparr>row = 5, col = 0\<rparr>) (col \<lparr>row = 5, col = 0\<rparr>)
        \<noteq> Piece (King k)) \<and>
   isValidMove_part000 playingGame \<lparr>row = 5, col = 0\<rparr> \<lparr>row = 4, col = 1\<rparr> White = Inr True \<and>
   isValidMove playingGame \<lparr>row = 5, col = 0\<rparr> \<lparr>row = 4, col = 1\<rparr> White = Inr True"
proof -
  have h1: "playerHasAnyCapture playingGame White = Inr False"
    by code_simp
  have "rdOpt (board playingGame) (row \<lparr>row = 5, col = 0\<rparr>) (col \<lparr>row = 5, col = 0\<rparr>)
        = Piece (Man White)"
    by code_simp
  then have h2: "\<forall>k. rdOpt (board playingGame) (row \<lparr>row = 5, col = 0\<rparr>)
        (col \<lparr>row = 5, col = 0\<rparr>) \<noteq> Piece (King k)"
    by simp
  have h3: "isValidMove playingGame \<lparr>row = 5, col = 0\<rparr> \<lparr>row = 4, col = 1\<rparr> White = Inr True"
    by code_simp
  from predecessor_subset[OF h1 h2, of "\<lparr>row = 4, col = 1\<rparr>"] h1 h2 h3 show ?thesis
    by simp
qed


end
